theory Spec2Isabelle
  imports Main "HOL-Library.AList"
begin

section \<open>The request bridge of bridge-service.ts\<close>

text \<open>
  The class \<^verbatim>\<open>BridgeService\<close> keeps a JavaScript \<^verbatim>\<open>Map\<close> from request ids to
  pending requests. A \<^verbatim>\<open>Map\<close> iterates in insertion order, \<^verbatim>\<open>set\<close> on a key that is
  present replaces the value where it stands and on a new key appends, and \<^verbatim>\<open>delete\<close>
  removes the key: this is an association list with \<open>AList.update\<close>, \<open>AList.delete\<close>
  and \<open>map_of\<close>.

  What the methods do outside the table is made explicit in the state: the timers that
  \<^verbatim>\<open>setTimeout\<close> has scheduled and \<^verbatim>\<open>clearTimeout\<close> has not cancelled, and the log of
  every call of a promise's \<^verbatim>\<open>resolve\<close> or \<^verbatim>\<open>reject\<close> function. \<^verbatim>\<open>Date.now()\<close> and the
  identifier drawn by \<^verbatim>\<open>uuidv4()\<close> are parameters of the operations that read them.
\<close>

subsection \<open>Data\<close>

text \<open>A value of the TypeScript type \<^verbatim>\<open>any\<close>, which the bridge never inspects: an
  \<^verbatim>\<open>Error\<close> object with its message; a thenable, that is an object with a method
  \<^verbatim>\<open>then\<close>, told by what that method does first: it calls its first argument with a value
  (\<open>ThenResolves\<close>), it calls its second argument with a reason or throws it
  (\<open>ThenRejects\<close>), or it calls neither (\<open>ThenSilent\<close>); or some other value, which is
  not a thenable (\<open>Val\<close>).\<close>

datatype 'v anyval =
    Error string
  | Val 'v
  | ThenResolves "'v anyval"
  | ThenRejects "'v anyval"
  | ThenSilent

fun isThenable :: "'v anyval \<Rightarrow> bool" where
  "isThenable (Error m) = False"
| "isThenable (Val v) = False"
| "isThenable (ThenResolves y) = True"
| "isThenable (ThenRejects r) = True"
| "isThenable ThenSilent = True"

text \<open>The two functions that \<^verbatim>\<open>new Promise((resolve, reject) => ...)\<close> hands to its
  executor, named by the promise they settle.\<close>

datatype callback = ResolveOf nat | RejectOf nat

fun promiseOf :: "callback \<Rightarrow> nat" where
  "promiseOf (ResolveOf p) = p"
| "promiseOf (RejectOf p) = p"

text \<open>The interface \<^verbatim>\<open>PendingRequest\<close>; the field \<^verbatim>\<open>id\<close> is \<open>id_field\<close> here, since
  \<open>id\<close> is the identity function of HOL.\<close>

record 'v PendingRequest =
  id_field :: string
  endpoint :: string
  data :: "'v anyval"
  timestamp :: int
  resolve :: callback
  reject :: callback
  timeoutId :: nat
  dispatched :: bool
  dispatchedAt :: int

text \<open>The closure given to \<^verbatim>\<open>setTimeout\<close> in \<^verbatim>\<open>sendRequest\<close>: it captures the request id
  and the promise's \<^verbatim>\<open>reject\<close>, and is due after \<open>delay\<close> milliseconds.\<close>

record Timeout =
  capturedId :: string
  capturedReject :: callback
  delay :: int

record 'v state =
  pendingRequests :: "(string \<times> 'v PendingRequest) list"
  timeouts :: "(nat \<times> Timeout) list"
  nextTimeoutId :: nat
  nextPromise :: nat
  settlements :: "(callback \<times> 'v anyval) list"

text \<open>The value \<^verbatim>\<open>getPendingRequest\<close> returns when it is not \<^verbatim>\<open>null\<close>; \<open>request\<close> is
  the pair of \<^verbatim>\<open>endpoint\<close> and \<^verbatim>\<open>data\<close>.\<close>

record 'v polled =
  requestId :: string
  request :: "string \<times> 'v anyval"

definition requestTimeout :: int where
  "requestTimeout = 60000"

definition dispatchStaleTimeout :: int where
  "dispatchStaleTimeout = 45000"

definition newBridgeService :: "'v state" where
  "newBridgeService =
     \<lparr>pendingRequests = [], timeouts = [], nextTimeoutId = 0, nextPromise = 0,
      settlements = []\<rparr>"

subsection \<open>The runtime: timers and promise callbacks\<close>

definition call :: "callback \<Rightarrow> 'v anyval \<Rightarrow> 'v state \<Rightarrow> 'v state" where
  "call cb v s = s\<lparr>settlements := settlements s @ [(cb, v)]\<rparr>"

definition clearTimeout :: "nat \<Rightarrow> 'v state \<Rightarrow> 'v state" where
  "clearTimeout h s = s\<lparr>timeouts := AList.delete h (timeouts s)\<rparr>"

definition setTimeout :: "Timeout \<Rightarrow> 'v state \<Rightarrow> nat \<times> 'v state" where
  "setTimeout t s =
     (nextTimeoutId s,
      s\<lparr>timeouts := timeouts s @ [(nextTimeoutId s, t)],
        nextTimeoutId := Suc (nextTimeoutId s)\<rparr>)"

definition deletePending :: "string \<Rightarrow> 'v state \<Rightarrow> 'v state" where
  "deletePending k s = s\<lparr>pendingRequests := AList.delete k (pendingRequests s)\<rparr>"

text \<open>The state of a promise of JavaScript. The first call of one of its two functions
  decides it, and later calls are ignored. A call of \<^verbatim>\<open>reject\<close> rejects the promise with
  the reason given, whatever it is. A call of \<^verbatim>\<open>resolve\<close> with a value that is not a
  thenable fulfils the promise with the value; with a thenable, the promise follows the
  thenable: \<^verbatim>\<open>then\<close> is called with the two functions of the promise, so that the promise
  is resolved in turn with the value the thenable passes on, rejected with its reason, or
  left pending.\<close>

datatype 'v promiseState = Pending | Fulfilled "'v anyval" | Rejected "'v anyval"

fun adopt :: "'v anyval \<Rightarrow> 'v promiseState" where
  "adopt (Error m) = Fulfilled (Error m)"
| "adopt (Val v) = Fulfilled (Val v)"
| "adopt (ThenResolves y) = adopt y"
| "adopt (ThenRejects r) = Rejected r"
| "adopt ThenSilent = Pending"

definition firstCall :: "'v state \<Rightarrow> nat \<Rightarrow> (callback \<times> 'v anyval) option" where
  "firstCall s p = find (\<lambda>(cb, v). promiseOf cb = p) (settlements s)"

definition promiseState :: "'v state \<Rightarrow> nat \<Rightarrow> 'v promiseState" where
  "promiseState s p =
     (case firstCall s p of
        None \<Rightarrow> Pending
      | Some (ResolveOf q, v) \<Rightarrow> adopt v
      | Some (RejectOf q, e) \<Rightarrow> Rejected e)"

subsection \<open>sendRequest\<close>

text \<open>The promise is the next unused one; the function returns it with the new state.\<close>

definition sendRequest ::
  "string \<Rightarrow> string \<Rightarrow> 'v anyval \<Rightarrow> int \<Rightarrow> 'v state \<Rightarrow> nat \<times> 'v state" where
  "sendRequest newId ep d now s =
     (let p = nextPromise s;
          s1 = s\<lparr>nextPromise := Suc p\<rparr>;
          (tid, s2) = setTimeout
             \<lparr>capturedId = newId, capturedReject = RejectOf p, delay = requestTimeout\<rparr> s1;
          req = \<lparr>id_field = newId, endpoint = ep, data = d, timestamp = now,
                 resolve = ResolveOf p, reject = RejectOf p, timeoutId = tid,
                 dispatched = False, dispatchedAt = 0\<rparr>
      in (p, s2\<lparr>pendingRequests := AList.update newId req (pendingRequests s2)\<rparr>))"

text \<open>The timer's callback, run by the event loop when the timer \<open>h\<close> is due and has not
  been cancelled.\<close>

definition timeoutFires :: "nat \<Rightarrow> 'v state \<Rightarrow> 'v state" where
  "timeoutFires h s =
     (case map_of (timeouts s) h of
        None \<Rightarrow> s
      | Some t \<Rightarrow>
          (let s1 = clearTimeout h s
           in if map_of (pendingRequests s1) (capturedId t) \<noteq> None
              then call (capturedReject t) (Error ''Request timeout'')
                     (deletePending (capturedId t) s1)
              else s1))"

subsection \<open>getPendingRequest\<close>

text \<open>Lines 62 to 64: the candidate so far is kept unless there is none or the request
  is strictly older. The candidate is a reference in the source; here it is the key under
  which the request stands in the table, with the request as the loop has left it.\<close>

definition older ::
  "(string \<times> 'v PendingRequest) option \<Rightarrow> string \<times> 'v PendingRequest \<Rightarrow>
   (string \<times> 'v PendingRequest) option" where
  "older oldestRequest kr =
     (case oldestRequest of
        None \<Rightarrow> Some kr
      | Some cur \<Rightarrow> if timestamp (snd kr) < timestamp (snd cur) then Some kr else Some cur)"

text \<open>The loop of lines 53 to 65 over \<^verbatim>\<open>pendingRequests.values()\<close>: it returns the
  table with the requests it has reset, and the candidate.\<close>

fun scan ::
  "int \<Rightarrow> (string \<times> 'v PendingRequest) list \<Rightarrow> (string \<times> 'v PendingRequest) option \<Rightarrow>
   (string \<times> 'v PendingRequest) list \<times> (string \<times> 'v PendingRequest) option" where
  "scan now [] oldestRequest = ([], oldestRequest)"
| "scan now ((k, req) # rest) oldestRequest =
     (if dispatched req then
        if now - dispatchedAt req > dispatchStaleTimeout then
          (let req' = req\<lparr>dispatched := False, dispatchedAt := 0\<rparr>;
               (rest', res) = scan now rest (older oldestRequest (k, req'))
           in ((k, req') # rest', res))
        else
          (let (rest', res) = scan now rest oldestRequest
           in ((k, req) # rest', res))
      else
        (let (rest', res) = scan now rest (older oldestRequest (k, req))
         in ((k, req) # rest', res)))"

definition mark :: "int \<Rightarrow> 'v PendingRequest \<Rightarrow> 'v PendingRequest" where
  "mark now req = req\<lparr>dispatched := True, dispatchedAt := now\<rparr>"

definition getPendingRequest :: "int \<Rightarrow> 'v state \<Rightarrow> 'v polled option \<times> 'v state" where
  "getPendingRequest now s =
     (let (tbl, oldestRequest) = scan now (pendingRequests s) None
      in case oldestRequest of
           Some (k, req) \<Rightarrow>
             (Some \<lparr>requestId = id_field req, request = (endpoint req, data req)\<rparr>,
              s\<lparr>pendingRequests := AList.map_entry k (mark now) tbl\<rparr>)
         | None \<Rightarrow> (None, s\<lparr>pendingRequests := tbl\<rparr>))"

subsection \<open>resolveRequest, rejectRequest\<close>

definition resolveRequest :: "string \<Rightarrow> 'v anyval \<Rightarrow> 'v state \<Rightarrow> 'v state" where
  "resolveRequest rid response s =
     (case map_of (pendingRequests s) rid of
        None \<Rightarrow> s
      | Some req \<Rightarrow>
          call (resolve req) response (deletePending rid (clearTimeout (timeoutId req) s)))"

definition rejectRequest :: "string \<Rightarrow> 'v anyval \<Rightarrow> 'v state \<Rightarrow> 'v state" where
  "rejectRequest rid err s =
     (case map_of (pendingRequests s) rid of
        None \<Rightarrow> s
      | Some req \<Rightarrow>
          call (reject req) err (deletePending rid (clearTimeout (timeoutId req) s)))"

subsection \<open>cleanupOldRequests, clearAllPendingRequests, the counters\<close>

text \<open>The loop of \<^verbatim>\<open>cleanupOldRequests\<close> over \<^verbatim>\<open>pendingRequests.entries()\<close>. The only
  entry an iteration deletes is the one it stands on, which a \<^verbatim>\<open>Map\<close> iterator allows:
  the entries still to come are those of the table at the start.\<close>

fun cleanupLoop ::
  "int \<Rightarrow> (string \<times> 'v PendingRequest) list \<Rightarrow> 'v state \<Rightarrow> 'v state" where
  "cleanupLoop now [] s = s"
| "cleanupLoop now ((k, req) # rest) s =
     cleanupLoop now rest
       (if now - timestamp req > requestTimeout
        then call (reject req) (Error ''Request timeout'')
               (deletePending k (clearTimeout (timeoutId req) s))
        else s)"

definition cleanupOldRequests :: "int \<Rightarrow> 'v state \<Rightarrow> 'v state" where
  "cleanupOldRequests now s = cleanupLoop now (pendingRequests s) s"

fun clearAllLoop :: "(string \<times> 'v PendingRequest) list \<Rightarrow> 'v state \<Rightarrow> 'v state" where
  "clearAllLoop [] s = s"
| "clearAllLoop ((k, req) # rest) s =
     clearAllLoop rest
       (call (reject req) (Error ''Connection closed'') (clearTimeout (timeoutId req) s))"

definition clearAllPendingRequests :: "'v state \<Rightarrow> 'v state" where
  "clearAllPendingRequests s =
     (clearAllLoop (pendingRequests s) s)\<lparr>pendingRequests := []\<rparr>"

definition getPendingCount :: "'v state \<Rightarrow> nat" where
  "getPendingCount s = length (pendingRequests s)"

fun countDispatched :: "(string \<times> 'v PendingRequest) list \<Rightarrow> nat \<Rightarrow> nat" where
  "countDispatched [] count = count"
| "countDispatched ((k, req) # rest) count =
     countDispatched rest (if dispatched req then Suc count else count)"

definition getDispatchedCount :: "'v state \<Rightarrow> nat" where
  "getDispatchedCount s = countDispatched (pendingRequests s) 0"

subsection \<open>What the table must satisfy\<close>

text \<open>A \<^verbatim>\<open>Map\<close> holds a key once, and \<^verbatim>\<open>sendRequest\<close> files every request under its own
  \<^verbatim>\<open>id\<close>.\<close>

definition tableOk :: "'v state \<Rightarrow> bool" where
  "tableOk s \<longleftrightarrow>
     distinct (map fst (pendingRequests s)) \<and>
     list_all (\<lambda>(k, req). id_field req = k) (pendingRequests s)"

text \<open>The discipline of promises and timers. Every entry holds the two callbacks of
  one promise, created before now and not settled, and a timer handle given out before
  now; no two entries share a promise or a handle. No promise has been settled twice. The
  scheduled timers have distinct handles and promises, none of them settled; and an
  entry that holds the promise of a scheduled timer stands under the id the timer has
  captured and holds the timer's handle.\<close>

definition promise :: "'v PendingRequest \<Rightarrow> nat" where
  "promise req = promiseOf (reject req)"

definition settledPromises :: "'v state \<Rightarrow> nat list" where
  "settledPromises s = map (promiseOf \<circ> fst) (settlements s)"

definition runtimeOk :: "'v state \<Rightarrow> bool" where
  "runtimeOk s \<longleftrightarrow>
     (\<forall>(k, req) \<in> set (pendingRequests s).
        resolve req = ResolveOf (promise req) \<and> reject req = RejectOf (promise req) \<and>
        promise req < nextPromise s \<and> promise req \<notin> set (settledPromises s) \<and>
        timeoutId req < nextTimeoutId s) \<and>
     distinct (map (promise \<circ> snd) (pendingRequests s)) \<and>
     distinct (map (timeoutId \<circ> snd) (pendingRequests s)) \<and>
     distinct (settledPromises s) \<and>
     (\<forall>p \<in> set (settledPromises s). p < nextPromise s) \<and>
     distinct (map fst (timeouts s)) \<and>
     distinct (map (promiseOf \<circ> capturedReject \<circ> snd) (timeouts s)) \<and>
     (\<forall>(h, t) \<in> set (timeouts s).
        h < nextTimeoutId s \<and> promiseOf (capturedReject t) < nextPromise s \<and>
        promiseOf (capturedReject t) \<notin> set (settledPromises s) \<and>
        (\<forall>(k, req) \<in> set (pendingRequests s).
           promise req = promiseOf (capturedReject t) \<longrightarrow>
           k = capturedId t \<and> timeoutId req = h))"

text \<open>A request that the loop of \<open>getPendingRequest\<close> does not pass over: it is not
  dispatched, or its dispatch is stale.\<close>

definition claimable :: "int \<Rightarrow> 'v PendingRequest \<Rightarrow> bool" where
  "claimable now req \<longleftrightarrow> \<not> dispatched req \<or> now - dispatchedAt req > dispatchStaleTimeout"

text \<open>The test of line 103 in \<open>cleanupOldRequests\<close>.\<close>

definition expired :: "int \<Rightarrow> 'v PendingRequest \<Rightarrow> bool" where
  "expired now req \<longleftrightarrow> now - timestamp req > requestTimeout"

subsection \<open>Sequences of calls\<close>

text \<open>The bridge runs on a single-threaded event loop: its history is a sequence of
  calls of its methods and of timer callbacks, each run to its end before the next.\<close>

datatype 'v op =
    SendRequest string string "'v anyval" int
  | GetPendingRequest int
  | ResolveRequest string "'v anyval"
  | RejectRequest string "'v anyval"
  | CleanupOldRequests int
  | ClearAllPendingRequests
  | TimeoutFires nat

fun exec :: "'v op \<Rightarrow> 'v state \<Rightarrow> 'v state" where
  "exec (SendRequest newId ep d now) s = snd (sendRequest newId ep d now s)"
| "exec (GetPendingRequest now) s = snd (getPendingRequest now s)"
| "exec (ResolveRequest rid response) s = resolveRequest rid response s"
| "exec (RejectRequest rid err) s = rejectRequest rid err s"
| "exec (CleanupOldRequests now) s = cleanupOldRequests now s"
| "exec ClearAllPendingRequests s = clearAllPendingRequests s"
| "exec (TimeoutFires h) s = timeoutFires h s"

fun run :: "'v op list \<Rightarrow> 'v state \<Rightarrow> 'v state" where
  "run [] s = s"
| "run (x # xs) s = run xs (exec x s)"

text \<open>What may happen while a dispatch made at \<open>t0\<close> is live: any call, as long as a
  \<open>getPendingRequest\<close> reads a clock within the stale window of \<open>t0\<close>, and
  \<open>sendRequest\<close> draws an id other than \<open>rid\<close> (uuidv4 does not repeat an id).\<close>

fun withinDispatch :: "string \<Rightarrow> int \<Rightarrow> 'v op \<Rightarrow> bool" where
  "withinDispatch rid t0 (SendRequest newId ep d now) \<longleftrightarrow> newId \<noteq> rid"
| "withinDispatch rid t0 (GetPendingRequest now) \<longleftrightarrow> now - t0 \<le> dispatchStaleTimeout"
| "withinDispatch rid t0 (ResolveRequest k response) \<longleftrightarrow> True"
| "withinDispatch rid t0 (RejectRequest k err) \<longleftrightarrow> True"
| "withinDispatch rid t0 (CleanupOldRequests now) \<longleftrightarrow> True"
| "withinDispatch rid t0 ClearAllPendingRequests \<longleftrightarrow> True"
| "withinDispatch rid t0 (TimeoutFires h) \<longleftrightarrow> True"

text \<open>The request \<open>rid\<close> is gone, or it is still marked with the dispatch made at \<open>t0\<close>.\<close>

definition held :: "string \<Rightarrow> int \<Rightarrow> 'v state \<Rightarrow> bool" where
  "held rid t0 s \<longleftrightarrow>
     (case map_of (pendingRequests s) rid of
        None \<Rightarrow> True
      | Some req \<Rightarrow> dispatched req \<and> dispatchedAt req = t0)"

subsection \<open>The claim operation as the specification words it\<close>

text \<open>One pass resets every request whose dispatch is older than 45 seconds; among the
  requests that are then not dispatched, the one with the smallest \<open>timestamp\<close> is taken,
  the first of them in scan order when several are the smallest; it is marked dispatched
  at \<open>now\<close> and its id, endpoint and data are returned.\<close>

definition recover :: "int \<Rightarrow> 'v PendingRequest \<Rightarrow> 'v PendingRequest" where
  "recover now req =
     (if dispatched req \<and> now - dispatchedAt req > 45000
      then req\<lparr>dispatched := False, dispatchedAt := 0\<rparr> else req)"

definition staleRecovery ::
  "int \<Rightarrow> (string \<times> 'v PendingRequest) list \<Rightarrow> (string \<times> 'v PendingRequest) list" where
  "staleRecovery now tbl = map (\<lambda>(k, req). (k, recover now req)) tbl"

definition eligible ::
  "(string \<times> 'v PendingRequest) list \<Rightarrow> (string \<times> 'v PendingRequest) list" where
  "eligible tbl = filter (\<lambda>(k, req). \<not> dispatched req) tbl"

definition oldestOf ::
  "(string \<times> 'v PendingRequest) list \<Rightarrow> (string \<times> 'v PendingRequest) option" where
  "oldestOf el =
     find (\<lambda>(k, req). list_all (\<lambda>(k', req'). timestamp req \<le> timestamp req') el) el"

definition claimNext :: "int \<Rightarrow> 'v state \<Rightarrow> 'v polled option \<times> 'v state" where
  "claimNext now s =
     (let tbl = staleRecovery now (pendingRequests s)
      in case oldestOf (eligible tbl) of
           None \<Rightarrow> (None, s\<lparr>pendingRequests := tbl\<rparr>)
         | Some (k, req) \<Rightarrow>
             (Some \<lparr>requestId = id_field req, request = (endpoint req, data req)\<rparr>,
              s\<lparr>pendingRequests :=
                  map (\<lambda>(k', req'). if k' = k
                         then (k', req'\<lparr>dispatched := True, dispatchedAt := now\<rparr>)
                         else (k', req')) tbl\<rparr>))"

subsection \<open>States and calls to run the theorems on\<close>

text \<open>Three requests sent at times 10, 20 and 30 to a new bridge.\<close>

definition threeSent :: "nat state" where
  "threeSent =
     run [SendRequest ''a'' ''get_file_tree'' (Val 1) 10,
          SendRequest ''b'' ''set_property'' (Val 2) 20,
          SendRequest ''c'' ''get_children'' (Val 3) 30] newBridgeService"

text \<open>The same, with the oldest request claimed at time 100: one request dispatched,
  two not.\<close>

definition oneClaimed :: "nat state" where
  "oneClaimed = run [GetPendingRequest 100] threeSent"

text \<open>Calls made while the dispatch of \<open>''a''\<close> at time 100 is live.\<close>

definition liveCalls :: "nat op list" where
  "liveCalls =
     [GetPendingRequest 200, SendRequest ''d'' ''get_selection'' (Val 4) 300,
      CleanupOldRequests 400, RejectRequest ''b'' (Error ''no such instance'')]"

text \<open>Calls that come after the request \<open>''a''\<close> has been settled or expired.\<close>

definition lateCalls :: "nat op list" where
  "lateCalls =
     [RejectRequest ''a'' (Error ''late''), ResolveRequest ''a'' (Val 9), TimeoutFires 0,
      CleanupOldRequests 70000, SendRequest ''e'' ''get_services'' (Val 5) 70001,
      ClearAllPendingRequests]"

text \<open>The request \<open>''b''\<close> resolved, the two others outstanding.\<close>

definition oneResolved :: "nat state" where
  "oneResolved = run [ResolveRequest ''b'' (Val 7)] oneClaimed"

text \<open>Two of the three requests claimed, at times 100 and 200.\<close>

definition twoClaimed :: "nat state" where
  "twoClaimed = run [GetPendingRequest 100, GetPendingRequest 200] threeSent"

section \<open>Lemmas\<close>

subsection \<open>The scan\<close>

lemma scan_Cons:
  "scan now ((k, req) # rest) acc =
     (let req' = recover now req;
          acc' = (if dispatched req' then acc else older acc (k, req'))
      in ((k, req') # fst (scan now rest acc'), snd (scan now rest acc')))"
  by (simp add: Let_def split_beta recover_def dispatchStaleTimeout_def)

lemma scan_fst: "fst (scan now xs acc) = staleRecovery now xs"
proof (induction xs arbitrary: acc)
  case Nil
  show ?case by (simp add: staleRecovery_def)
next
  case (Cons a xs)
  obtain k req where a: "a = (k, req)" by (cases a)
  show ?case
    unfolding a scan_Cons using Cons.IH by (simp add: Let_def staleRecovery_def)
qed

lemma scan_snd:
  "snd (scan now xs acc) = foldl older acc (eligible (staleRecovery now xs))"
proof (induction xs arbitrary: acc)
  case Nil
  show ?case by (simp add: staleRecovery_def eligible_def)
next
  case (Cons a xs)
  obtain k req where a: "a = (k, req)" by (cases a)
  show ?case
    unfolding a scan_Cons using Cons.IH
    by (simp add: Let_def staleRecovery_def eligible_def)
qed

lemma foldl_older_Some: "\<exists>kr. foldl older (Some a) el = Some kr"
  by (induction el arbitrary: a) (simp_all add: older_def)

lemma foldl_older_None: "foldl older None el = None \<longleftrightarrow> el = []"
proof (cases el)
  case Nil
  then show ?thesis by simp
next
  case (Cons a xs)
  then show ?thesis using foldl_older_Some [of a xs] by (auto simp: older_def)
qed


lemma oldestOf_Cons_less:
  assumes "timestamp (snd x) < timestamp (snd a)"
  shows "oldestOf (a # x # el) = oldestOf (x # el)"
proof -
  have "oldestOf (a # x # el) =
        find (\<lambda>(k, req). list_all (\<lambda>(k', req'). timestamp req \<le> timestamp req') (a # x # el))
          (x # el)"
    using assms by (simp add: oldestOf_def split_beta)
  also have "\<dots> = oldestOf (x # el)"
    unfolding oldestOf_def using assms
    by (intro find_cong refl) (auto simp: split_beta)
  finally show ?thesis .
qed

lemma oldestOf_Cons_keep:
  fixes a x :: "string \<times> 'v PendingRequest"
  assumes "\<not> timestamp (snd x) < timestamp (snd a)"
  shows "oldestOf (a # x # el) = oldestOf (a # el)"
proof (cases "list_all (\<lambda>(k', req'). timestamp (snd a) \<le> timestamp req') el")
  case True
  then show ?thesis using assms by (simp add: oldestOf_def split_beta)
next
  case False
  define P where "P = (\<lambda>(l :: (string \<times> 'v PendingRequest) list) (kr :: string \<times> 'v PendingRequest).
     list_all (\<lambda>kr'. timestamp (snd kr) \<le> timestamp (snd kr')) l)"
  have o: "oldestOf l = find (P l) l" for l
    by (simp add: oldestOf_def P_def case_prod_unfold)
  have na: "\<not> P (a # x # el) a" "\<not> P (a # el) a"
    using False by (auto simp: P_def case_prod_unfold)
  have nx: "\<not> P (a # x # el) x"
    using False assms by (auto simp: P_def list_all_iff case_prod_unfold)
  have "find (P (a # x # el)) el = find (P (a # el)) el"
    using assms by (intro find_cong refl) (auto simp: P_def)
  then show ?thesis
    unfolding o using na nx by simp
qed

lemma foldl_older_oldestOf: "foldl older (Some a) el = oldestOf (a # el)"
proof (induction el arbitrary: a)
  case Nil
  show ?case by (simp add: oldestOf_def split_beta)
next
  case (Cons x el)
  show ?case
  proof (cases "timestamp (snd x) < timestamp (snd a)")
    case True
    then show ?thesis using Cons.IH [of x] by (simp add: older_def oldestOf_Cons_less)
  next
    case False
    then show ?thesis using Cons.IH [of a] by (simp add: older_def oldestOf_Cons_keep)
  qed
qed

lemma foldl_older_start: "foldl older None el = oldestOf el"
proof (cases el)
  case Nil
  then show ?thesis by (simp add: oldestOf_def)
next
  case (Cons a xs)
  then show ?thesis by (simp add: older_def foldl_older_oldestOf)
qed

lemma map_entry_distinct:
  "distinct (map fst xs) \<Longrightarrow>
   AList.map_entry k f xs = map (\<lambda>(k', v). if k' = k then (k', f v) else (k', v)) xs"
proof (induction xs)
  case Nil
  show ?case by simp
next
  case (Cons a xs)
  obtain k' v where a: "a = (k', v)" by (cases a)
  have "k' = k \<Longrightarrow> map (\<lambda>(k', v). if k' = k then (k', f v) else (k', v)) xs = xs"
    using Cons.prems a by (intro map_idI) (auto simp: split_beta image_iff)
  then show ?case using Cons a by auto
qed

lemma mark_eq: "mark now = (\<lambda>req. req\<lparr>dispatched := True, dispatchedAt := now\<rparr>)"
  by (simp add: fun_eq_iff mark_def)

lemma keys_staleRecovery: "map fst (staleRecovery now tbl) = map fst tbl"
  by (simp add: staleRecovery_def split_beta)

lemma getPendingRequest_claimNext:
  "tableOk s \<Longrightarrow> getPendingRequest now s = claimNext now s"
proof -
  assume w: "tableOk s"
  have sc: "scan now (pendingRequests s) None =
        (staleRecovery now (pendingRequests s),
         oldestOf (eligible (staleRecovery now (pendingRequests s))))"
    using scan_fst [of now "pendingRequests s" None] scan_snd [of now "pendingRequests s" None]
    by (simp add: foldl_older_start prod_eq_iff)
  have d: "distinct (map fst (staleRecovery now (pendingRequests s)))"
    using w by (simp add: keys_staleRecovery tableOk_def)
  show ?thesis
    unfolding getPendingRequest_def claimNext_def sc
    by (simp add: map_entry_distinct [OF d] mark_eq split: option.splits)
qed

subsection \<open>What a claim returns and what it leaves\<close>

lemma oldestOf_SomeD:
  assumes "oldestOf el = Some kr"
  shows "kr \<in> set el" and "\<forall>kr' \<in> set el. timestamp (snd kr) \<le> timestamp (snd kr')"
  using assms by (auto simp: oldestOf_def find_Some_iff list_all_iff case_prod_unfold)

lemma eligible_staleRecovery:
  "eligible (staleRecovery now tbl) =
     map (\<lambda>(k, req). (k, recover now req)) (filter (\<lambda>(k, req). claimable now req) tbl)"
  by (induction tbl)
     (auto simp: eligible_def staleRecovery_def recover_def claimable_def
                 dispatchStaleTimeout_def split: if_splits)

lemma recover_fields [simp]:
  "id_field (recover now req) = id_field req"
  "endpoint (recover now req) = endpoint req"
  "data (recover now req) = data req"
  "timestamp (recover now req) = timestamp req"
  "resolve (recover now req) = resolve req"
  "reject (recover now req) = reject req"
  "timeoutId (recover now req) = timeoutId req"
  by (simp_all add: recover_def)

lemma mark_fields [simp]:
  "id_field (mark now req) = id_field req"
  "endpoint (mark now req) = endpoint req"
  "data (mark now req) = data req"
  "timestamp (mark now req) = timestamp req"
  "resolve (mark now req) = resolve req"
  "reject (mark now req) = reject req"
  "timeoutId (mark now req) = timeoutId req"
  "dispatched (mark now req)"
  "dispatchedAt (mark now req) = now"
  by (simp_all add: mark_def)

lemma recover_not_claimable: "\<not> claimable now req \<Longrightarrow> recover now req = req"
  by (simp add: recover_def claimable_def dispatchStaleTimeout_def)

lemma claim_None_iff:
  "fst (getPendingRequest now s) = None \<longleftrightarrow>
     (\<forall>(k, req) \<in> set (pendingRequests s). \<not> claimable now req)"
proof -
  have "fst (getPendingRequest now s) = None \<longleftrightarrow>
        snd (scan now (pendingRequests s) None) = None"
    by (simp add: getPendingRequest_def split_beta split: option.splits)
  also have "\<dots> \<longleftrightarrow> filter (\<lambda>(k, req). claimable now req) (pendingRequests s) = []"
    by (simp add: scan_snd foldl_older_None eligible_staleRecovery)
  also have "\<dots> \<longleftrightarrow> (\<forall>(k, req) \<in> set (pendingRequests s). \<not> claimable now req)"
    by (auto simp: filter_empty_conv)
  finally show ?thesis .
qed

lemma claim_SomeD:
  assumes ok: "tableOk s" and g: "getPendingRequest now s = (Some c, s')"
  shows "\<exists>req. map_of (pendingRequests s) (requestId c) = Some req \<and> claimable now req \<and>
           request c = (endpoint req, data req) \<and>
           (\<forall>(k', req') \<in> set (pendingRequests s).
               claimable now req' \<longrightarrow> timestamp req \<le> timestamp req') \<and>
           s' = s\<lparr>pendingRequests :=
                   map (\<lambda>(k', req'). (k', if k' = requestId c then mark now (recover now req')
                                            else recover now req')) (pendingRequests s)\<rparr>"
proof -
  let ?tbl = "pendingRequests s"
  let ?el = "eligible (staleRecovery now ?tbl)"
  from g ok have cn: "claimNext now s = (Some c, s')"
    by (simp add: getPendingRequest_claimNext)
  then obtain k r where o: "oldestOf ?el = Some (k, r)"
    by (auto simp: claimNext_def Let_def split: option.splits)
  from cn o have c: "c = \<lparr>requestId = id_field r, request = (endpoint r, data r)\<rparr>"
    and s': "s' = s\<lparr>pendingRequests :=
                  map (\<lambda>(k', req'). if k' = k
                         then (k', req'\<lparr>dispatched := True, dispatchedAt := now\<rparr>)
                         else (k', req')) (staleRecovery now ?tbl)\<rparr>"
    by (simp_all add: claimNext_def Let_def)
  from oldestOf_SomeD [OF o] have mem: "(k, r) \<in> set ?el"
    and least: "\<forall>kr' \<in> set ?el. timestamp r \<le> timestamp (snd kr')" by simp_all
  from mem obtain r0 where r0: "(k, r0) \<in> set ?tbl" "claimable now r0" "r = recover now r0"
    by (auto simp: eligible_staleRecovery)
  from ok r0(1) have idk: "id_field r0 = k" and look: "map_of ?tbl k = Some r0"
    by (auto simp: tableOk_def list_all_iff)
  have rid: "requestId c = k" using c r0(3) idk by simp
  have "\<forall>(k', req') \<in> set ?tbl. claimable now req' \<longrightarrow> timestamp r0 \<le> timestamp req'"
  proof (clarify)
    fix k' req' assume "(k', req') \<in> set ?tbl" "claimable now req'"
    then have "(k', recover now req') \<in> set ?el"
      by (force simp: eligible_staleRecovery)
    with least r0(3) show "timestamp r0 \<le> timestamp req'" by fastforce
  qed
  moreover have "s' = s\<lparr>pendingRequests :=
                   map (\<lambda>(k', req'). (k', if k' = requestId c then mark now (recover now req')
                                            else recover now req')) ?tbl\<rparr>"
    unfolding s' rid by (simp add: staleRecovery_def mark_def case_prod_unfold comp_def)
  ultimately show ?thesis
    using look r0 c rid by auto
qed

lemma claim_NoneD:
  assumes g: "getPendingRequest now s = (None, s')"
  shows "s' = s"
proof -
  have n: "\<forall>(k, req) \<in> set (pendingRequests s). \<not> claimable now req"
    using g claim_None_iff [of now s] by simp
  have "staleRecovery now (pendingRequests s) = pendingRequests s"
    unfolding staleRecovery_def using n
    by (intro map_idI) (auto simp: recover_not_claimable)
  moreover from g have "s' = s\<lparr>pendingRequests := fst (scan now (pendingRequests s) None)\<rparr>"
    by (auto simp: getPendingRequest_def split_beta split: option.splits)
  ultimately show ?thesis by (simp add: scan_fst)
qed

subsection \<open>The loops of cleanupOldRequests and clearAllPendingRequests in closed form\<close>

lemma filter_delete:
  "filter (\<lambda>(k', v). k' \<notin> A) (AList.delete k xs) = filter (\<lambda>(k', v). k' \<notin> insert k A) xs"
  by (induction xs) auto

lemma remove_and_settle:
  "call cb v (deletePending k (clearTimeout h s)) =
     s\<lparr>pendingRequests := AList.delete k (pendingRequests s),
       timeouts := AList.delete h (timeouts s),
       settlements := settlements s @ [(cb, v)]\<rparr>"
  by (intro state.equality) (simp_all add: call_def deletePending_def clearTimeout_def)

lemma cancel_and_settle:
  "call cb v (clearTimeout h s) =
     s\<lparr>timeouts := AList.delete h (timeouts s),
       settlements := settlements s @ [(cb, v)]\<rparr>"
  by (intro state.equality) (simp_all add: call_def clearTimeout_def)

lemma cleanupLoop_step:
  "cleanupLoop now ((k, req) # rest) s =
     cleanupLoop now rest
       (if expired now req
        then s\<lparr>pendingRequests := AList.delete k (pendingRequests s),
               timeouts := AList.delete (timeoutId req) (timeouts s),
               settlements := settlements s @ [(reject req, Error ''Request timeout'')]\<rparr>
        else s)"
  by (simp add: expired_def remove_and_settle)

lemma cleanupLoop_closed:
  "cleanupLoop now xs s =
     s\<lparr>pendingRequests :=
         filter (\<lambda>(k, req). k \<notin> fst ` set (filter (\<lambda>(k, req). expired now req) xs))
           (pendingRequests s),
       timeouts :=
         filter (\<lambda>(h, t). h \<notin> (timeoutId \<circ> snd) ` set (filter (\<lambda>(k, req). expired now req) xs))
           (timeouts s),
       settlements :=
         settlements s @
         map (\<lambda>(k, req). (reject req, Error ''Request timeout''))
           (filter (\<lambda>(k, req). expired now req) xs)\<rparr>"
proof (induction xs arbitrary: s)
  case Nil
  show ?case by simp
next
  case (Cons a xs)
  obtain k req where a: "a = (k, req)" by (cases a)
  show ?case
    unfolding a cleanupLoop_step Cons.IH
    by (cases "expired now req"; intro state.equality; simp add: filter_delete)
qed

lemma clearAllLoop_step:
  "clearAllLoop ((k, req) # rest) s =
     clearAllLoop rest
       (s\<lparr>timeouts := AList.delete (timeoutId req) (timeouts s),
          settlements := settlements s @ [(reject req, Error ''Connection closed'')]\<rparr>)"
  by (simp add: cancel_and_settle)

lemma clearAllLoop_closed:
  "clearAllLoop xs s =
     s\<lparr>timeouts := filter (\<lambda>(h, t). h \<notin> (timeoutId \<circ> snd) ` set xs) (timeouts s),
       settlements :=
         settlements s @ map (\<lambda>(k, req). (reject req, Error ''Connection closed'')) xs\<rparr>"
proof (induction xs arbitrary: s)
  case Nil
  show ?case by simp
next
  case (Cons a xs)
  obtain k req where a: "a = (k, req)" by (cases a)
  show ?case
    unfolding a clearAllLoop_step Cons.IH
    by (intro state.equality; simp add: filter_delete)
qed

subsection \<open>The table invariant holds in every state the bridge reaches\<close>

lemma list_all_update:
  "list_all P xs \<Longrightarrow> P (k, v) \<Longrightarrow> list_all P (AList.update k v xs)"
  by (induction xs) auto

lemma list_all_delete: "list_all P xs \<Longrightarrow> list_all P (AList.delete k xs)"
  by (induction xs) auto

lemma tableOk_new: "tableOk newBridgeService"
  by (simp add: tableOk_def newBridgeService_def)

lemma tableOk_sendRequest: "tableOk s \<Longrightarrow> tableOk (snd (sendRequest newId ep d now s))"
  by (simp add: sendRequest_def setTimeout_def Let_def tableOk_def distinct_update
                list_all_update)

lemma tableOk_getPendingRequest:
  assumes "tableOk s"
  shows "tableOk (snd (getPendingRequest now s))"
proof (cases "fst (getPendingRequest now s)")
  case None
  then have "getPendingRequest now s = (None, snd (getPendingRequest now s))"
    by (simp add: prod_eq_iff)
  from claim_NoneD [OF this] assms show ?thesis by simp
next
  case (Some c)
  then have "getPendingRequest now s = (Some c, snd (getPendingRequest now s))"
    by (simp add: prod_eq_iff)
  from claim_SomeD [OF assms this] obtain tbl where
    "snd (getPendingRequest now s) = s\<lparr>pendingRequests :=
        map (\<lambda>(k', req'). (k', if k' = requestId c then mark now (recover now req')
                                 else recover now req')) (pendingRequests s)\<rparr>"
    by blast
  then show ?thesis
    using assms
    by (simp add: tableOk_def comp_def case_prod_unfold list_all_iff)
qed

lemma tableOk_resolveRequest: "tableOk s \<Longrightarrow> tableOk (resolveRequest rid v s)"
  by (auto simp: resolveRequest_def remove_and_settle tableOk_def distinct_delete
        list_all_delete split: option.splits)

lemma tableOk_rejectRequest: "tableOk s \<Longrightarrow> tableOk (rejectRequest rid v s)"
  by (auto simp: rejectRequest_def remove_and_settle tableOk_def distinct_delete
        list_all_delete split: option.splits)

lemma tableOk_cleanupOldRequests: "tableOk s \<Longrightarrow> tableOk (cleanupOldRequests now s)"
  by (simp add: cleanupOldRequests_def cleanupLoop_closed tableOk_def distinct_map_filter
        list_all_iff)

lemma tableOk_clearAll: "tableOk (clearAllPendingRequests s)"
  by (simp add: clearAllPendingRequests_def tableOk_def)

lemma tableOk_timeoutFires: "tableOk s \<Longrightarrow> tableOk (timeoutFires h s)"
  by (auto simp: timeoutFires_def Let_def clearTimeout_def call_def deletePending_def
        tableOk_def distinct_delete list_all_delete split: option.splits)

lemma tableOk_exec: "tableOk s \<Longrightarrow> tableOk (exec x s)"
  by (cases x)
     (simp_all add: tableOk_sendRequest tableOk_getPendingRequest tableOk_resolveRequest
        tableOk_rejectRequest tableOk_cleanupOldRequests tableOk_clearAll
        tableOk_timeoutFires)

lemma tableOk_run: "tableOk s \<Longrightarrow> tableOk (run xs s)"
  by (induction xs arbitrary: s) (simp_all add: tableOk_exec)

subsection \<open>A live dispatch stays until the request leaves the table\<close>

lemma map_of_map_keyed:
  "map_of (map (\<lambda>(key, e). (key, upd key e)) tbl) key = map_option (upd key) (map_of tbl key)"
  by (induction tbl) auto

lemma lookup_filter_absent:
  "map_of tbl key = None \<Longrightarrow> map_of (filter keep tbl) key = None"
  by (induction tbl) (auto split: if_splits)

lemma lookup_filter_present:
  "distinct (map fst tbl) \<Longrightarrow> map_of tbl key = Some e \<Longrightarrow>
   map_of (filter keep tbl) key = (if keep (key, e) then Some e else None)"
proof (induction tbl)
  case Nil
  then show ?case by simp
next
  case (Cons a tbl)
  obtain key' e' where a: "a = (key', e')" by (cases a)
  show ?case
  proof (cases "key' = key")
    case True
    with Cons.prems a have "e' = e" and "key \<notin> fst ` set tbl" by auto
    then have "map_of tbl key = None" by (simp add: map_of_eq_None_iff)
    then have "map_of (filter keep tbl) key = None" by (rule lookup_filter_absent)
    with True a \<open>e' = e\<close> show ?thesis by simp
  next
    case False
    with Cons a show ?thesis by simp
  qed
qed

lemma held_not_claimed:
  assumes ok: "tableOk s" and h: "held rid t0 s"
    and t: "now - t0 \<le> dispatchStaleTimeout"
    and g: "getPendingRequest now s = (Some c, s')"
  shows "requestId c \<noteq> rid"
proof
  assume "requestId c = rid"
  with claim_SomeD [OF ok g] obtain req where
    "map_of (pendingRequests s) rid = Some req" "claimable now req" by auto
  with h t show False by (simp add: held_def claimable_def)
qed

lemma held_after_claim:
  assumes ok: "tableOk s" and g: "getPendingRequest t0 s = (Some c, s1)"
  shows "\<exists>req. map_of (pendingRequests s1) (requestId c) = Some req \<and>
           dispatched req \<and> dispatchedAt req = t0"
proof -
  from claim_SomeD [OF ok g] obtain req where
    r: "map_of (pendingRequests s) (requestId c) = Some req" and
    s1: "s1 = s\<lparr>pendingRequests :=
            map (\<lambda>(k', req'). (k', if k' = requestId c then mark t0 (recover t0 req')
                                     else recover t0 req')) (pendingRequests s)\<rparr>"
    by blast
  show ?thesis
    unfolding s1 using r by (simp add: map_of_map_keyed)
qed

lemma held_getPendingRequest:
  assumes ok: "tableOk s" and h: "held rid t0 s" and t: "now - t0 \<le> dispatchStaleTimeout"
  shows "held rid t0 (snd (getPendingRequest now s))"
proof (cases "fst (getPendingRequest now s)")
  case None
  then have "getPendingRequest now s = (None, snd (getPendingRequest now s))"
    by (simp add: prod_eq_iff)
  from claim_NoneD [OF this] h show ?thesis by simp
next
  case (Some c)
  then have g: "getPendingRequest now s = (Some c, snd (getPendingRequest now s))"
    by (simp add: prod_eq_iff)
  have ne: "requestId c \<noteq> rid" by (rule held_not_claimed [OF ok h t g])
  from claim_SomeD [OF ok g] have
    s': "snd (getPendingRequest now s) = s\<lparr>pendingRequests :=
            map (\<lambda>(k', req'). (k', if k' = requestId c then mark now (recover now req')
                                     else recover now req')) (pendingRequests s)\<rparr>"
    by blast
  show ?thesis
  proof (cases "map_of (pendingRequests s) rid")
    case None
    then show ?thesis unfolding s' by (simp add: held_def map_of_map_keyed)
  next
    case (Some req)
    with h t have "\<not> claimable now req" by (simp add: held_def claimable_def)
    then have "recover now req = req" by (rule recover_not_claimable)
    with Some h ne show ?thesis unfolding s' by (simp add: held_def map_of_map_keyed)
  qed
qed

lemma live_entry_untouched:
  assumes ok: "tableOk s" and m: "map_of (pendingRequests s) k = Some req"
    and n: "\<not> claimable now req"
  shows "(\<forall>c'. fst (getPendingRequest now s) = Some c' \<longrightarrow> requestId c' \<noteq> k) \<and>
         map_of (pendingRequests (snd (getPendingRequest now s))) k = Some req"
proof (cases "fst (getPendingRequest now s)")
  case None
  then have "getPendingRequest now s = (None, snd (getPendingRequest now s))"
    by (simp add: prod_eq_iff)
  from claim_NoneD [OF this] None m show ?thesis by simp
next
  case (Some c)
  then have g: "getPendingRequest now s = (Some c, snd (getPendingRequest now s))"
    by (simp add: prod_eq_iff)
  from claim_SomeD [OF ok g] obtain r0 where
    r0: "map_of (pendingRequests s) (requestId c) = Some r0" "claimable now r0" and
    s': "snd (getPendingRequest now s) = s\<lparr>pendingRequests :=
            map (\<lambda>(k', req'). (k', if k' = requestId c then mark now (recover now req')
                                     else recover now req')) (pendingRequests s)\<rparr>"
    by blast
  from r0 m n have ne: "requestId c \<noteq> k" by auto
  have "map_of (pendingRequests (snd (getPendingRequest now s))) k = Some req"
    unfolding s' using m ne recover_not_claimable [OF n] by (simp add: map_of_map_keyed)
  with Some ne show ?thesis by simp
qed

lemma held_filter:
  assumes d: "distinct (map fst (pendingRequests s))" and h: "held rid t0 s"
    and e: "pendingRequests s' = filter keep (pendingRequests s)"
  shows "held rid t0 s'"
proof (cases "map_of (pendingRequests s) rid")
  case None
  then show ?thesis unfolding held_def e by (simp add: lookup_filter_absent)
next
  case (Some req)
  with h show ?thesis
    unfolding held_def e lookup_filter_present [OF d Some] by simp
qed

lemma held_exec:
  assumes ok: "tableOk s" and h: "held rid t0 s" and w: "withinDispatch rid t0 x"
  shows "held rid t0 (exec x s)"
proof (cases x)
  case (SendRequest newId ep d now)
  with w have "newId \<noteq> rid" by simp
  with h show ?thesis
    unfolding SendRequest
    by (simp add: sendRequest_def setTimeout_def Let_def held_def update_conv')
next
  case (GetPendingRequest now)
  with w ok h show ?thesis by (simp add: held_getPendingRequest)
next
  case (ResolveRequest k v)
  with h show ?thesis
    by (auto simp: resolveRequest_def remove_and_settle held_def delete_conv
          split: option.splits)
next
  case (RejectRequest k v)
  with h show ?thesis
    by (auto simp: rejectRequest_def remove_and_settle held_def delete_conv
          split: option.splits)
next
  case (CleanupOldRequests now)
  from ok have "distinct (map fst (pendingRequests s))" by (simp add: tableOk_def)
  from held_filter [OF this h] show ?thesis
    unfolding CleanupOldRequests
    by (simp add: cleanupOldRequests_def cleanupLoop_closed)
next
  case ClearAllPendingRequests
  then show ?thesis by (simp add: clearAllPendingRequests_def held_def)
next
  case (TimeoutFires k)
  with h show ?thesis
    by (auto simp: timeoutFires_def Let_def clearTimeout_def call_def deletePending_def
          held_def delete_conv split: option.splits)
qed

lemma held_run:
  "tableOk s \<Longrightarrow> held rid t0 s \<Longrightarrow> list_all (withinDispatch rid t0) xs \<Longrightarrow>
   held rid t0 (run xs s)"
  by (induction xs arbitrary: s) (simp_all add: held_exec tableOk_exec)

subsection \<open>Filtering a table with distinct keys\<close>

lemma filter_keys_distinct:
  "distinct (map fst xs) \<Longrightarrow>
   filter (\<lambda>(k, v). k \<notin> fst ` set (filter P xs)) xs = filter (\<lambda>kv. \<not> P kv) xs"
proof -
  assume d: "distinct (map fst xs)"
  have "(fst kv \<notin> fst ` set (filter P xs)) = (\<not> P kv)" if "kv \<in> set xs" for kv
  proof
    assume "fst kv \<notin> fst ` set (filter P xs)"
    with that show "\<not> P kv" by force
  next
    assume n: "\<not> P kv"
    show "fst kv \<notin> fst ` set (filter P xs)"
    proof
      assume "fst kv \<in> fst ` set (filter P xs)"
      then obtain kv' where kv': "kv' \<in> set xs" "P kv'" "fst kv' = fst kv" by auto
      with d that have "kv' = kv" by (metis eq_key_imp_eq_value prod.collapse)
      with kv' n show False by simp
    qed
  qed
  then show ?thesis by (intro filter_cong refl) (simp add: case_prod_unfold)
qed

lemma map_of_filter_notin:
  "h \<in> A \<Longrightarrow> map_of (filter (\<lambda>(h', t). h' \<notin> A) ts) h = None"
  by (induction ts) auto

lemma clearAll_closed:
  "clearAllPendingRequests s =
     s\<lparr>pendingRequests := [],
       timeouts := filter (\<lambda>(h, t). h \<notin> (timeoutId \<circ> snd) ` set (pendingRequests s)) (timeouts s),
       settlements :=
         settlements s @
         map (\<lambda>(k, req). (reject req, Error ''Connection closed'')) (pendingRequests s)\<rparr>"
  unfolding clearAllPendingRequests_def clearAllLoop_closed
  by (intro state.equality) simp_all

subsection \<open>Promises and timers: an invariant of every call\<close>

lemma runtimeOk_new: "runtimeOk newBridgeService"
  by (simp add: runtimeOk_def newBridgeService_def settledPromises_def)

text \<open>Removing entries and timers, and settling the promises of the removed entries.\<close>

lemma runtimeOk_remove:
  assumes ok: "runtimeOk s"
    and tbl: "set tbl' \<subseteq> set (pendingRequests s)"
        "distinct (map (promise \<circ> snd) tbl')" "distinct (map (timeoutId \<circ> snd) tbl')"
    and tms: "set tms' \<subseteq> set (timeouts s)"
        "distinct (map fst tms')" "distinct (map (promiseOf \<circ> capturedReject \<circ> snd) tms')"
    and new: "distinct ps" "set ps \<inter> set (settledPromises s) = {}"
        "\<forall>p \<in> set ps. p < nextPromise s"
        "\<forall>(k, req) \<in> set tbl'. promise req \<notin> set ps"
        "\<forall>(h, t) \<in> set tms'. promiseOf (capturedReject t) \<notin> set ps"
    and s': "pendingRequests s' = tbl'" "timeouts s' = tms'"
        "settledPromises s' = settledPromises s @ ps"
        "nextPromise s' = nextPromise s" "nextTimeoutId s' = nextTimeoutId s"
  shows "runtimeOk s'"
proof -
  have e: "\<forall>(k, req) \<in> set tbl'.
        resolve req = ResolveOf (promise req) \<and> reject req = RejectOf (promise req) \<and>
        promise req < nextPromise s \<and> promise req \<notin> set (settledPromises s @ ps) \<and>
        timeoutId req < nextTimeoutId s"
    using ok tbl(1) new(4) unfolding runtimeOk_def by fastforce
  have d: "distinct (settledPromises s @ ps)"
    using ok new(1,2) unfolding runtimeOk_def by auto
  have b: "\<forall>p \<in> set (settledPromises s @ ps). p < nextPromise s"
    using ok new(3) unfolding runtimeOk_def by auto
  have t: "\<forall>(h, t) \<in> set tms'.
        h < nextTimeoutId s \<and> promiseOf (capturedReject t) < nextPromise s \<and>
        promiseOf (capturedReject t) \<notin> set (settledPromises s @ ps) \<and>
        (\<forall>(k, req) \<in> set tbl'.
           promise req = promiseOf (capturedReject t) \<longrightarrow>
           k = capturedId t \<and> timeoutId req = h)"
  proof (clarify)
    fix h t assume m: "(h, t) \<in> set tms'"
    with tms(1) have m': "(h, t) \<in> set (timeouts s)" by auto
    from ok m' have 1: "h < nextTimeoutId s" "promiseOf (capturedReject t) < nextPromise s"
      "promiseOf (capturedReject t) \<notin> set (settledPromises s)"
      unfolding runtimeOk_def by auto
    from ok m' have 2: "\<forall>(k, req) \<in> set (pendingRequests s).
           promise req = promiseOf (capturedReject t) \<longrightarrow>
           k = capturedId t \<and> timeoutId req = h"
      unfolding runtimeOk_def by fast
    from new(5) m have 3: "promiseOf (capturedReject t) \<notin> set ps" by auto
    from 2 tbl(1) have 4: "\<forall>(k, req) \<in> set tbl'.
           promise req = promiseOf (capturedReject t) \<longrightarrow>
           k = capturedId t \<and> timeoutId req = h" by blast
    show "h < nextTimeoutId s \<and> promiseOf (capturedReject t) < nextPromise s \<and>
        promiseOf (capturedReject t) \<notin> set (settledPromises s @ ps) \<and>
        (\<forall>(k, req) \<in> set tbl'.
           promise req = promiseOf (capturedReject t) \<longrightarrow>
           k = capturedId t \<and> timeoutId req = h)"
      using 1 3 4 by simp
  qed
  show ?thesis
    unfolding runtimeOk_def s' using e d b t tbl(2,3) tms(2,3) by blast
qed

lemma promise_unique:
  assumes "runtimeOk s" and "(k, r) \<in> set (pendingRequests s)"
    and "(k', r') \<in> set (pendingRequests s)" and "promise r = promise r'"
  shows "k = k' \<and> r = r'"
proof -
  from assms(1) have "inj_on (promise \<circ> snd) (set (pendingRequests s))"
    unfolding runtimeOk_def by (simp add: distinct_map)
  from inj_onD [OF this _ assms(2,3)] assms(4) show ?thesis by simp
qed

lemma timer_of_entry:
  assumes "runtimeOk s" and "(h, t) \<in> set (timeouts s)"
    and "(k, r) \<in> set (pendingRequests s)" and "promise r = promiseOf (capturedReject t)"
  shows "k = capturedId t \<and> timeoutId r = h"
  using assms unfolding runtimeOk_def by fast

lemma set_delete_subset: "set (AList.delete k xs) \<subseteq> set xs"
  by (auto simp: AList.delete_eq)

lemma distinct_map_delete: "distinct (map f xs) \<Longrightarrow> distinct (map f (AList.delete k xs))"
  by (simp add: AList.delete_eq distinct_map_filter)

lemma key_not_in_delete: "(k, v) \<notin> set (AList.delete k xs)"
  by (auto simp: AList.delete_eq)

text \<open>An entry leaves the table, its timer is cancelled, and one of its callbacks is
  called: the step of \<open>resolveRequest\<close> and \<open>rejectRequest\<close>.\<close>

lemma runtimeOk_settle_entry:
  assumes ok: "runtimeOk s" and m: "map_of (pendingRequests s) rid = Some req"
    and cb: "cb = resolve req \<or> cb = reject req"
  shows "runtimeOk (call cb v (deletePending rid (clearTimeout (timeoutId req) s)))"
proof (rule runtimeOk_remove [OF ok, where ps = "[promise req]"])
  let ?s' = "call cb v (deletePending rid (clearTimeout (timeoutId req) s))"
  from m have mem: "(rid, req) \<in> set (pendingRequests s)" by (rule map_of_SomeD)
  with ok have e: "resolve req = ResolveOf (promise req)" "reject req = RejectOf (promise req)"
    "promise req < nextPromise s" "promise req \<notin> set (settledPromises s)"
    unfolding runtimeOk_def by auto
  show "pendingRequests ?s' = AList.delete rid (pendingRequests s)"
    "timeouts ?s' = AList.delete (timeoutId req) (timeouts s)"
    "nextPromise ?s' = nextPromise s" "nextTimeoutId ?s' = nextTimeoutId s"
    by (simp_all add: remove_and_settle)
  from cb e show "settledPromises ?s' = settledPromises s @ [promise req]"
    by (auto simp: remove_and_settle settledPromises_def)
  show "set (AList.delete rid (pendingRequests s)) \<subseteq> set (pendingRequests s)"
    "set (AList.delete (timeoutId req) (timeouts s)) \<subseteq> set (timeouts s)"
    by (rule set_delete_subset)+
  from ok show "distinct (map (promise \<circ> snd) (AList.delete rid (pendingRequests s)))"
    "distinct (map (timeoutId \<circ> snd) (AList.delete rid (pendingRequests s)))"
    "distinct (map fst (AList.delete (timeoutId req) (timeouts s)))"
    "distinct (map (promiseOf \<circ> capturedReject \<circ> snd) (AList.delete (timeoutId req) (timeouts s)))"
    unfolding runtimeOk_def by (simp_all add: distinct_map_delete)
  show "distinct [promise req]" by simp
  from e show "set [promise req] \<inter> set (settledPromises s) = {}"
    "\<forall>p \<in> set [promise req]. p < nextPromise s" by simp_all
  show "\<forall>(k, r) \<in> set (AList.delete rid (pendingRequests s)). promise r \<notin> set [promise req]"
  proof (clarify)
    fix k r assume a: "(k, r) \<in> set (AList.delete rid (pendingRequests s))"
      and "promise r \<in> set [promise req]"
    then have "promise r = promise req" by simp
    moreover from a have "(k, r) \<in> set (pendingRequests s)" using set_delete_subset by fast
    ultimately have "k = rid" using promise_unique [OF ok _ mem] by blast
    with a show False by (simp add: key_not_in_delete)
  qed
  show "\<forall>(h, t) \<in> set (AList.delete (timeoutId req) (timeouts s)).
          promiseOf (capturedReject t) \<notin> set [promise req]"
  proof (clarify)
    fix h t assume a: "(h, t) \<in> set (AList.delete (timeoutId req) (timeouts s))"
      and "promiseOf (capturedReject t) \<in> set [promise req]"
    then have "promise req = promiseOf (capturedReject t)" by simp
    moreover from a have "(h, t) \<in> set (timeouts s)" using set_delete_subset by fast
    ultimately have "timeoutId req = h" using timer_of_entry [OF ok _ mem] by blast
    with a show False by (simp add: key_not_in_delete)
  qed
qed

lemma runtimeOk_resolveRequest: "runtimeOk s \<Longrightarrow> runtimeOk (resolveRequest rid v s)"
  by (simp add: resolveRequest_def runtimeOk_settle_entry split: option.splits)

lemma runtimeOk_rejectRequest: "runtimeOk s \<Longrightarrow> runtimeOk (rejectRequest rid v s)"
  by (simp add: rejectRequest_def runtimeOk_settle_entry split: option.splits)

lemma runtimeOk_timeoutFires:
  assumes ok: "runtimeOk s"
  shows "runtimeOk (timeoutFires h s)"
proof (cases "map_of (timeouts s) h")
  case None
  with ok show ?thesis by (simp add: timeoutFires_def)
next
  case (Some t)
  then have mem: "(h, t) \<in> set (timeouts s)" by (rule map_of_SomeD)
  with ok have e: "promiseOf (capturedReject t) < nextPromise s"
    "promiseOf (capturedReject t) \<notin> set (settledPromises s)"
    unfolding runtimeOk_def by auto
  from ok have d: "distinct (map (promise \<circ> snd) (AList.delete k (pendingRequests s)))"
    "distinct (map (timeoutId \<circ> snd) (AList.delete k (pendingRequests s)))"
    "distinct (map fst (AList.delete h (timeouts s)))"
    "distinct (map (promiseOf \<circ> capturedReject \<circ> snd) (AList.delete h (timeouts s)))"
    "distinct (map (promise \<circ> snd) (pendingRequests s))"
    "distinct (map (timeoutId \<circ> snd) (pendingRequests s))" for k
    unfolding runtimeOk_def by (simp_all add: distinct_map_delete)
  show ?thesis
  proof (cases "map_of (pendingRequests s) (capturedId t) = None")
    case True
    let ?s' = "clearTimeout h s"
    have "runtimeOk ?s'"
    proof (rule runtimeOk_remove [OF ok, where ps = "[]"])
      show "pendingRequests ?s' = pendingRequests s" "timeouts ?s' = AList.delete h (timeouts s)"
        "settledPromises ?s' = settledPromises s @ []"
        "nextPromise ?s' = nextPromise s" "nextTimeoutId ?s' = nextTimeoutId s"
        by (simp_all add: clearTimeout_def settledPromises_def)
      show "set (AList.delete h (timeouts s)) \<subseteq> set (timeouts s)" by (rule set_delete_subset)
    qed (simp_all add: d)
    with Some True show ?thesis by (simp add: timeoutFires_def clearTimeout_def)
  next
    case False
    let ?s' = "call (capturedReject t) (Error ''Request timeout'')
                 (deletePending (capturedId t) (clearTimeout h s))"
    have "runtimeOk ?s'"
    proof (rule runtimeOk_remove [OF ok, where ps = "[promiseOf (capturedReject t)]"])
      show "pendingRequests ?s' = AList.delete (capturedId t) (pendingRequests s)"
        "timeouts ?s' = AList.delete h (timeouts s)"
        "settledPromises ?s' = settledPromises s @ [promiseOf (capturedReject t)]"
        "nextPromise ?s' = nextPromise s" "nextTimeoutId ?s' = nextTimeoutId s"
        by (simp_all add: remove_and_settle settledPromises_def)
      show "set (AList.delete (capturedId t) (pendingRequests s)) \<subseteq> set (pendingRequests s)"
        "set (AList.delete h (timeouts s)) \<subseteq> set (timeouts s)"
        by (rule set_delete_subset)+
      from e show "set [promiseOf (capturedReject t)] \<inter> set (settledPromises s) = {}"
        "\<forall>p \<in> set [promiseOf (capturedReject t)]. p < nextPromise s" by simp_all
      show "\<forall>(k, r) \<in> set (AList.delete (capturedId t) (pendingRequests s)).
              promise r \<notin> set [promiseOf (capturedReject t)]"
      proof (clarify)
        fix k r assume a: "(k, r) \<in> set (AList.delete (capturedId t) (pendingRequests s))"
          and "promise r \<in> set [promiseOf (capturedReject t)]"
        then have "promise r = promiseOf (capturedReject t)" by simp
        moreover from a have "(k, r) \<in> set (pendingRequests s)" using set_delete_subset by fast
        ultimately have "k = capturedId t" using timer_of_entry [OF ok mem] by blast
        with a show False by (simp add: key_not_in_delete)
      qed
      show "\<forall>(h', t') \<in> set (AList.delete h (timeouts s)).
              promiseOf (capturedReject t') \<notin> set [promiseOf (capturedReject t)]"
      proof (clarify)
        fix h' t' assume a: "(h', t') \<in> set (AList.delete h (timeouts s))"
          and "promiseOf (capturedReject t') \<in> set [promiseOf (capturedReject t)]"
        then have p: "promiseOf (capturedReject t') = promiseOf (capturedReject t)" by simp
        from a have m': "(h', t') \<in> set (timeouts s)" using set_delete_subset by fast
        from ok have "inj_on (promiseOf \<circ> capturedReject \<circ> snd) (set (timeouts s))"
          unfolding runtimeOk_def by (simp add: distinct_map)
        from inj_onD [OF this _ m' mem] p have "h' = h" by simp
        with a show False by (simp add: key_not_in_delete)
      qed
    qed (simp_all add: d)
    with Some False show ?thesis by (simp add: timeoutFires_def clearTimeout_def)
  qed
qed

text \<open>A list of entries leaves the table, their timers are cancelled and their \<open>reject\<close>
  is called: the loops of \<open>cleanupOldRequests\<close> and \<open>clearAllPendingRequests\<close>.\<close>

lemma runtimeOk_reject_entries:
  assumes ok: "runtimeOk s"
    and s': "pendingRequests s' = filter (\<lambda>(k, r). k \<notin> fst ` set (filter P (pendingRequests s)))
                                   (pendingRequests s)"
      "timeouts s' = filter (\<lambda>(h, t). h \<notin> (timeoutId \<circ> snd) ` set (filter P (pendingRequests s)))
                       (timeouts s)"
      "settlements s' = settlements s @
          map (\<lambda>(k, r). (reject r, v)) (filter P (pendingRequests s))"
      "nextPromise s' = nextPromise s" "nextTimeoutId s' = nextTimeoutId s"
  shows "runtimeOk s'"
proof (rule runtimeOk_remove [OF ok, where ps = "map (promise \<circ> snd) (filter P (pendingRequests s))"])
  let ?E = "filter P (pendingRequests s)"
  show "pendingRequests s' = filter (\<lambda>(k, r). k \<notin> fst ` set ?E) (pendingRequests s)"
    "timeouts s' = filter (\<lambda>(h, t). h \<notin> (timeoutId \<circ> snd) ` set ?E) (timeouts s)"
    "nextPromise s' = nextPromise s" "nextTimeoutId s' = nextTimeoutId s"
    by (rule s')+
  show "settledPromises s' = settledPromises s @ map (promise \<circ> snd) ?E"
    by (simp add: settledPromises_def s'(3) promise_def comp_def case_prod_unfold)
  show "set (filter (\<lambda>(k, r). k \<notin> fst ` set ?E) (pendingRequests s)) \<subseteq> set (pendingRequests s)"
    "set (filter (\<lambda>(h, t). h \<notin> (timeoutId \<circ> snd) ` set ?E) (timeouts s)) \<subseteq> set (timeouts s)"
    by auto
  from ok show
    "distinct (map (promise \<circ> snd) (filter (\<lambda>(k, r). k \<notin> fst ` set ?E) (pendingRequests s)))"
    "distinct (map (timeoutId \<circ> snd) (filter (\<lambda>(k, r). k \<notin> fst ` set ?E) (pendingRequests s)))"
    "distinct (map fst (filter (\<lambda>(h, t). h \<notin> (timeoutId \<circ> snd) ` set ?E) (timeouts s)))"
    "distinct (map (promiseOf \<circ> capturedReject \<circ> snd)
        (filter (\<lambda>(h, t). h \<notin> (timeoutId \<circ> snd) ` set ?E) (timeouts s)))"
    "distinct (map (promise \<circ> snd) ?E)"
    unfolding runtimeOk_def by (simp_all add: distinct_map_filter)
  from ok show "set (map (promise \<circ> snd) ?E) \<inter> set (settledPromises s) = {}"
    "\<forall>p \<in> set (map (promise \<circ> snd) ?E). p < nextPromise s"
    unfolding runtimeOk_def by auto
  show "\<forall>(k, r) \<in> set (filter (\<lambda>(k, r). k \<notin> fst ` set ?E) (pendingRequests s)).
          promise r \<notin> set (map (promise \<circ> snd) ?E)"
  proof (clarify)
    fix k r assume a: "(k, r) \<in> set (filter (\<lambda>(k, r). k \<notin> fst ` set ?E) (pendingRequests s))"
      and "promise r \<in> set (map (promise \<circ> snd) ?E)"
    then obtain k' r' where b: "(k', r') \<in> set ?E" "promise r = promise r'" by auto
    from a have "(k, r) \<in> set (pendingRequests s)" "k \<notin> fst ` set ?E" by auto
    moreover from b have "(k', r') \<in> set (pendingRequests s)" by simp
    ultimately have "k = k'" using promise_unique [OF ok _ _ b(2)] by blast
    with b(1) \<open>k \<notin> fst ` set ?E\<close> show False by force
  qed
  show "\<forall>(h, t) \<in> set (filter (\<lambda>(h, t). h \<notin> (timeoutId \<circ> snd) ` set ?E) (timeouts s)).
          promiseOf (capturedReject t) \<notin> set (map (promise \<circ> snd) ?E)"
  proof (clarify)
    fix h t assume a: "(h, t) \<in> set (filter (\<lambda>(h, t). h \<notin> (timeoutId \<circ> snd) ` set ?E) (timeouts s))"
      and "promiseOf (capturedReject t) \<in> set (map (promise \<circ> snd) ?E)"
    then obtain k' r' where b: "(k', r') \<in> set ?E" "promise r' = promiseOf (capturedReject t)"
      by auto
    from a have m: "(h, t) \<in> set (timeouts s)" and n: "h \<notin> (timeoutId \<circ> snd) ` set ?E" by auto
    from b have "(k', r') \<in> set (pendingRequests s)" by simp
    from timer_of_entry [OF ok m this b(2)] have "timeoutId r' = h" by simp
    with b(1) n show False by force
  qed
qed

lemma runtimeOk_cleanupOldRequests: "runtimeOk s \<Longrightarrow> runtimeOk (cleanupOldRequests now s)"
  by (rule runtimeOk_reject_entries
        [where P = "\<lambda>(k, req). expired now req" and v = "Error ''Request timeout''"])
     (simp_all add: cleanupOldRequests_def cleanupLoop_closed)

lemma runtimeOk_clearAll: "runtimeOk s \<Longrightarrow> runtimeOk (clearAllPendingRequests s)"
proof (rule runtimeOk_reject_entries
        [where P = "\<lambda>kr. True" and v = "Error ''Connection closed''"])
  have "filter (\<lambda>(k, r). k \<notin> fst ` set (pendingRequests s)) (pendingRequests s) = []"
    by (force simp: filter_empty_conv)
  then show "pendingRequests (clearAllPendingRequests s) =
      filter (\<lambda>(k, r). k \<notin> fst ` set (filter (\<lambda>kr. True) (pendingRequests s)))
        (pendingRequests s)"
    by (simp add: clearAll_closed)
qed (simp_all add: clearAll_closed)

lemma set_update_subset: "set (AList.update k v xs) \<subseteq> insert (k, v) (set xs)"
  by (induction xs) auto

lemma distinct_map_update:
  "distinct (map f xs) \<Longrightarrow> f (k, v) \<notin> f ` set xs \<Longrightarrow> distinct (map f (AList.update k v xs))"
proof (induction xs)
  case Nil
  show ?case by simp
next
  case (Cons a xs)
  have "f a \<notin> f ` set (AList.update k v xs)"
    using Cons.prems set_update_subset [of k v xs] by auto
  with Cons show ?case by auto
qed

lemma sendRequest_closed:
  "sendRequest newId ep d now s =
     (nextPromise s,
      s\<lparr>pendingRequests :=
          AList.update newId
            \<lparr>id_field = newId, endpoint = ep, data = d, timestamp = now,
             resolve = ResolveOf (nextPromise s), reject = RejectOf (nextPromise s),
             timeoutId = nextTimeoutId s, dispatched = False, dispatchedAt = 0\<rparr>
            (pendingRequests s),
        timeouts := timeouts s @
          [(nextTimeoutId s,
            \<lparr>capturedId = newId, capturedReject = RejectOf (nextPromise s),
             delay = requestTimeout\<rparr>)],
        nextTimeoutId := Suc (nextTimeoutId s),
        nextPromise := Suc (nextPromise s)\<rparr>)"
  by (simp add: sendRequest_def setTimeout_def Let_def state.equality)

lemma runtimeOk_sendRequest:
  assumes ok: "runtimeOk s"
  shows "runtimeOk (snd (sendRequest newId ep d now s))"
proof -
  let ?p = "nextPromise s" and ?h = "nextTimeoutId s"
  let ?req = "\<lparr>id_field = newId, endpoint = ep, data = d, timestamp = now,
             resolve = ResolveOf ?p, reject = RejectOf ?p,
             timeoutId = ?h, dispatched = False, dispatchedAt = 0\<rparr>"
  let ?t = "\<lparr>capturedId = newId, capturedReject = RejectOf ?p, delay = requestTimeout\<rparr>"
  let ?tbl = "AList.update newId ?req (pendingRequests s)"
  have sub: "set ?tbl \<subseteq> insert (newId, ?req) (set (pendingRequests s))"
    by (rule set_update_subset)
  have old: "resolve r = ResolveOf (promise r) \<and> reject r = RejectOf (promise r) \<and>
      promise r < ?p \<and> promise r \<notin> set (settledPromises s) \<and> timeoutId r < ?h"
    if "(k, r) \<in> set (pendingRequests s)" for k r
    using ok that unfolding runtimeOk_def by fast
  have log: "q < ?p" if "q \<in> set (settledPromises s)" for q
    using ok that unfolding runtimeOk_def by fast
  have tm: "h < ?h \<and> promiseOf (capturedReject t) < ?p \<and>
      promiseOf (capturedReject t) \<notin> set (settledPromises s)"
    if "(h, t) \<in> set (timeouts s)" for h t
    using ok that unfolding runtimeOk_def by fast
  have pr: "promise ?req = ?p" by (simp add: promise_def)
  have fresh: "?p \<notin> set (settledPromises s)" using log by blast
  have 1: "\<forall>(k, r) \<in> set ?tbl.
        resolve r = ResolveOf (promise r) \<and> reject r = RejectOf (promise r) \<and>
        promise r < Suc ?p \<and> promise r \<notin> set (settledPromises s) \<and> timeoutId r < Suc ?h"
  proof (clarify)
    fix k r assume "(k, r) \<in> set ?tbl"
    with sub have "(k, r) = (newId, ?req) \<or> (k, r) \<in> set (pendingRequests s)" by blast
    then show "resolve r = ResolveOf (promise r) \<and> reject r = RejectOf (promise r) \<and>
        promise r < Suc ?p \<and> promise r \<notin> set (settledPromises s) \<and> timeoutId r < Suc ?h"
    proof
      assume "(k, r) = (newId, ?req)"
      then show ?thesis using fresh by (auto simp: promise_def)
    next
      assume "(k, r) \<in> set (pendingRequests s)"
      from old [OF this] show ?thesis by simp
    qed
  qed
  have 2: "distinct (map (promise \<circ> snd) ?tbl)"
  proof (rule distinct_map_update)
    from ok show "distinct (map (promise \<circ> snd) (pendingRequests s))"
      unfolding runtimeOk_def by blast
    show "(promise \<circ> snd) (newId, ?req) \<notin> (promise \<circ> snd) ` set (pendingRequests s)"
      using old pr by fastforce
  qed
  have 3: "distinct (map (timeoutId \<circ> snd) ?tbl)"
  proof (rule distinct_map_update)
    from ok show "distinct (map (timeoutId \<circ> snd) (pendingRequests s))"
      unfolding runtimeOk_def by blast
    show "(timeoutId \<circ> snd) (newId, ?req) \<notin> (timeoutId \<circ> snd) ` set (pendingRequests s)"
      using old by fastforce
  qed
  have 45: "distinct (settledPromises s)" "\<forall>q \<in> set (settledPromises s). q < Suc ?p"
    using ok log unfolding runtimeOk_def by (blast, fastforce)
  have 6: "distinct (map fst (timeouts s @ [(?h, ?t)]))"
    using ok tm unfolding runtimeOk_def by fastforce
  have 7: "distinct (map (promiseOf \<circ> capturedReject \<circ> snd) (timeouts s @ [(?h, ?t)]))"
    using ok tm unfolding runtimeOk_def by fastforce
  have 8: "\<forall>(h, t) \<in> set (timeouts s @ [(?h, ?t)]).
        h < Suc ?h \<and> promiseOf (capturedReject t) < Suc ?p \<and>
        promiseOf (capturedReject t) \<notin> set (settledPromises s) \<and>
        (\<forall>(k, r) \<in> set ?tbl.
           promise r = promiseOf (capturedReject t) \<longrightarrow> k = capturedId t \<and> timeoutId r = h)"
  proof (clarify)
    fix h t assume "(h, t) \<in> set (timeouts s @ [(?h, ?t)])"
    then have "(h, t) \<in> set (timeouts s) \<or> (h, t) = (?h, ?t)" by auto
    then show "h < Suc ?h \<and> promiseOf (capturedReject t) < Suc ?p \<and>
        promiseOf (capturedReject t) \<notin> set (settledPromises s) \<and>
        (\<forall>(k, r) \<in> set ?tbl.
           promise r = promiseOf (capturedReject t) \<longrightarrow> k = capturedId t \<and> timeoutId r = h)"
    proof
      assume m: "(h, t) \<in> set (timeouts s)"
      have "k = capturedId t \<and> timeoutId r = h"
        if "(k, r) \<in> set ?tbl" "promise r = promiseOf (capturedReject t)" for k r
      proof -
        from that(1) sub have "(k, r) = (newId, ?req) \<or> (k, r) \<in> set (pendingRequests s)"
          by blast
        then show ?thesis
        proof
          assume "(k, r) = (newId, ?req)"
          with that(2) pr tm [OF m] show ?thesis by auto
        next
          assume "(k, r) \<in> set (pendingRequests s)"
          from timer_of_entry [OF ok m this that(2)] show ?thesis .
        qed
      qed
      with tm [OF m] show ?thesis by auto
    next
      assume e: "(h, t) = (?h, ?t)"
      have "k = newId \<and> timeoutId r = ?h"
        if "(k, r) \<in> set ?tbl" "promise r = ?p" for k r
      proof -
        from that(1) sub have "(k, r) = (newId, ?req) \<or> (k, r) \<in> set (pendingRequests s)"
          by blast
        then show ?thesis
        proof
          assume "(k, r) = (newId, ?req)"
          then show ?thesis by auto
        next
          assume "(k, r) \<in> set (pendingRequests s)"
          from old [OF this] that(2) show ?thesis by simp
        qed
      qed
      with e fresh show ?thesis by auto
    qed
  qed
  show ?thesis
    unfolding sendRequest_closed runtimeOk_def
    using 1 2 3 45 6 7 8 by (simp add: settledPromises_def)
qed

lemma runtimeOk_getPendingRequest:
  assumes t: "tableOk s" and ok: "runtimeOk s"
  shows "runtimeOk (snd (getPendingRequest now s))"
proof (cases "fst (getPendingRequest now s)")
  case None
  then have "getPendingRequest now s = (None, snd (getPendingRequest now s))"
    by (simp add: prod_eq_iff)
  from claim_NoneD [OF this] ok show ?thesis by simp
next
  case (Some c)
  then have "getPendingRequest now s = (Some c, snd (getPendingRequest now s))"
    by (simp add: prod_eq_iff)
  from claim_SomeD [OF t this] have
    s': "snd (getPendingRequest now s) = s\<lparr>pendingRequests :=
        map (\<lambda>(k', req'). (k', if k' = requestId c then mark now (recover now req')
                                 else recover now req')) (pendingRequests s)\<rparr>"
    by blast
  define g where "g = (\<lambda>k' (req' :: 'a PendingRequest).
      if k' = requestId c then mark now (recover now req') else recover now req')"
  have g: "promise (g k r) = promise r" "timeoutId (g k r) = timeoutId r"
    "resolve (g k r) = resolve r" "reject (g k r) = reject r" for k r
    by (simp_all add: g_def promise_def)
  have s'': "snd (getPendingRequest now s) =
      s\<lparr>pendingRequests := map (\<lambda>kr. (fst kr, g (fst kr) (snd kr))) (pendingRequests s)\<rparr>"
    unfolding s' g_def by (simp add: case_prod_unfold)
  from ok show ?thesis
    unfolding s'' runtimeOk_def
    by (simp add: settledPromises_def comp_def case_prod_unfold g)
qed

lemma runtimeOk_exec: "tableOk s \<Longrightarrow> runtimeOk s \<Longrightarrow> runtimeOk (exec x s)"
  by (cases x)
     (simp_all add: runtimeOk_sendRequest runtimeOk_getPendingRequest runtimeOk_resolveRequest
        runtimeOk_rejectRequest runtimeOk_cleanupOldRequests runtimeOk_clearAll
        runtimeOk_timeoutFires)

lemma runtimeOk_run: "tableOk s \<Longrightarrow> runtimeOk s \<Longrightarrow> runtimeOk (run xs s)"
  by (induction xs arbitrary: s) (simp_all add: runtimeOk_exec tableOk_exec)

subsection \<open>The log of settlements only grows, and holds a promise once\<close>

lemma settlements_exec: "\<exists>more. settlements (exec x s) = settlements s @ more"
proof (cases x)
  case (SendRequest newId ep d now)
  then show ?thesis by (simp add: sendRequest_closed)
next
  case (GetPendingRequest now)
  then show ?thesis
    by (simp add: getPendingRequest_def case_prod_unfold Let_def split: option.splits)
next
  case (ResolveRequest rid v)
  then show ?thesis by (simp add: resolveRequest_def remove_and_settle split: option.splits)
next
  case (RejectRequest rid v)
  then show ?thesis by (simp add: rejectRequest_def remove_and_settle split: option.splits)
next
  case (CleanupOldRequests now)
  then show ?thesis by (simp add: cleanupOldRequests_def cleanupLoop_closed)
next
  case ClearAllPendingRequests
  then show ?thesis by (simp add: clearAll_closed)
next
  case (TimeoutFires h)
  then show ?thesis
    by (simp add: timeoutFires_def Let_def call_def deletePending_def clearTimeout_def
          split: option.splits)
qed

lemma settlements_run: "\<exists>more. settlements (run xs s) = settlements s @ more"
proof (induction xs arbitrary: s)
  case Nil
  show ?case by simp
next
  case (Cons x xs)
  from settlements_exec [of x s] obtain m1 where 1: "settlements (exec x s) = settlements s @ m1" ..
  from Cons [of "exec x s"] obtain m2 where
    2: "settlements (run xs (exec x s)) = settlements (exec x s) @ m2" ..
  from 1 2 show ?case by simp
qed

lemma filter_distinct_key:
  "distinct (map f xs) \<Longrightarrow> x \<in> set xs \<Longrightarrow> filter (\<lambda>y. f y = f x) xs = [x]"
proof (induction xs)
  case Nil
  then show ?case by simp
next
  case (Cons a xs)
  show ?case
  proof (cases "a = x")
    case True
    with Cons.prems have "f x \<notin> f ` set xs" by simp
    then have "f y \<noteq> f x" if "y \<in> set xs" for y using that by (metis imageI)
    then have "filter (\<lambda>y. f y = f x) xs = []" by (simp add: filter_empty_conv)
    with True show ?thesis by simp
  next
    case False
    with Cons.prems have "x \<in> set xs" "f a \<noteq> f x" by auto
    with Cons show ?thesis by simp
  qed
qed

lemma settled_forever:
  assumes "tableOk s" and "runtimeOk s" and "(cb, v) \<in> set (settlements s)"
  shows "filter (\<lambda>(cb', v'). promiseOf cb' = promiseOf cb) (settlements (run calls s)) =
         [(cb, v)]"
proof -
  from runtimeOk_run [OF assms(1,2)] have "distinct (settledPromises (run calls s))"
    unfolding runtimeOk_def by blast
  then have d: "distinct (map (promiseOf \<circ> fst) (settlements (run calls s)))"
    by (simp add: settledPromises_def)
  from settlements_run [of calls s] assms(3) have "(cb, v) \<in> set (settlements (run calls s))"
    by auto
  from filter_distinct_key [OF d this] show ?thesis
    by (simp add: case_prod_unfold)
qed

text \<open>Every state the bridge reaches from its creation keeps both invariants, whatever the
  calls and the ids drawn; so no promise is ever settled twice.\<close>

lemma reachable_ok:
  "tableOk (run calls newBridgeService) \<and> runtimeOk (run calls newBridgeService)"
  by (simp add: tableOk_run runtimeOk_run tableOk_new runtimeOk_new)

lemma settled_at_most_once:
  "distinct (map (promiseOf \<circ> fst) (settlements (run calls newBridgeService)))"
  using reachable_ok [of calls] by (simp add: runtimeOk_def settledPromises_def)

lemma unsettled_while_pending:
  assumes "runtimeOk s" and "(k, req) \<in> set (pendingRequests s)"
  shows "filter (\<lambda>(cb, v). promiseOf cb = promise req) (settlements s) = []"
proof -
  from assms have "promise req \<notin> set (settledPromises s)"
    unfolding runtimeOk_def by fast
  then show ?thesis
    by (force simp: settledPromises_def filter_empty_conv)
qed

lemma map_of_filter_keep:
  "h \<notin> A \<Longrightarrow> map_of (filter (\<lambda>(h', t). h' \<notin> A) ts) h = map_of ts h"
  by (induction ts) auto

lemma firstCall_of_filter:
  "filter (\<lambda>(cb, v). promiseOf cb = p) (settlements s) = [x] \<Longrightarrow> firstCall s p = Some x"
proof -
  assume a: "filter (\<lambda>(cb, v). promiseOf cb = p) (settlements s) = [x]"
  have "find P xs = (case filter P xs of [] \<Rightarrow> None | y # _ \<Rightarrow> Some y)"
    for P and xs :: "(callback \<times> 'a anyval) list"
    by (induction xs) auto
  with a show ?thesis by (simp add: firstCall_def)
qed

lemma adopt_not_thenable: "\<not> isThenable v \<Longrightarrow> adopt v = Fulfilled v"
  by (cases v) simp_all

subsection \<open>The example states, evaluated\<close>

lemma oneClaimed_value:
  "oneClaimed =
     \<lparr>pendingRequests =
       [(''a'', \<lparr>id_field = ''a'', endpoint = ''get_file_tree'', data = Val 1, timestamp = 10,
           resolve = ResolveOf 0, reject = RejectOf 0, timeoutId = 0,
           dispatched = True, dispatchedAt = 100\<rparr>),
        (''b'', \<lparr>id_field = ''b'', endpoint = ''set_property'', data = Val 2, timestamp = 20,
           resolve = ResolveOf 1, reject = RejectOf 1, timeoutId = 1,
           dispatched = False, dispatchedAt = 0\<rparr>),
        (''c'', \<lparr>id_field = ''c'', endpoint = ''get_children'', data = Val 3, timestamp = 30,
           resolve = ResolveOf 2, reject = RejectOf 2, timeoutId = 2,
           dispatched = False, dispatchedAt = 0\<rparr>)],
      timeouts =
       [(0, \<lparr>capturedId = ''a'', capturedReject = RejectOf 0, delay = 60000\<rparr>),
        (1, \<lparr>capturedId = ''b'', capturedReject = RejectOf 1, delay = 60000\<rparr>),
        (2, \<lparr>capturedId = ''c'', capturedReject = RejectOf 2, delay = 60000\<rparr>)],
      nextTimeoutId = 3, nextPromise = 3, settlements = []\<rparr>"
  by code_simp

lemma oneClaimed_table:
  "pendingRequests oneClaimed =
       [(''a'', \<lparr>id_field = ''a'', endpoint = ''get_file_tree'', data = Val 1, timestamp = 10,
           resolve = ResolveOf 0, reject = RejectOf 0, timeoutId = 0,
           dispatched = True, dispatchedAt = 100\<rparr>),
        (''b'', \<lparr>id_field = ''b'', endpoint = ''set_property'', data = Val 2, timestamp = 20,
           resolve = ResolveOf 1, reject = RejectOf 1, timeoutId = 1,
           dispatched = False, dispatchedAt = 0\<rparr>),
        (''c'', \<lparr>id_field = ''c'', endpoint = ''get_children'', data = Val 3, timestamp = 30,
           resolve = ResolveOf 2, reject = RejectOf 2, timeoutId = 2,
           dispatched = False, dispatchedAt = 0\<rparr>)]"
  by (simp add: oneClaimed_value)

subsection \<open>Three requests, claimed one after the other\<close>

lemma three_sent:
  assumes "pendingRequests s = []" and "k1 \<noteq> k2" and "k1 \<noteq> k3" and "k2 \<noteq> k3"
  shows "pendingRequests
           (run [SendRequest k1 e1 d1 t1, SendRequest k2 e2 d2 t2, SendRequest k3 e3 d3 t3] s) =
         [(k1, \<lparr>id_field = k1, endpoint = e1, data = d1, timestamp = t1,
                resolve = ResolveOf (nextPromise s), reject = RejectOf (nextPromise s),
                timeoutId = nextTimeoutId s, dispatched = False, dispatchedAt = 0\<rparr>),
          (k2, \<lparr>id_field = k2, endpoint = e2, data = d2, timestamp = t2,
                resolve = ResolveOf (Suc (nextPromise s)), reject = RejectOf (Suc (nextPromise s)),
                timeoutId = Suc (nextTimeoutId s), dispatched = False, dispatchedAt = 0\<rparr>),
          (k3, \<lparr>id_field = k3, endpoint = e3, data = d3, timestamp = t3,
                resolve = ResolveOf (Suc (Suc (nextPromise s))),
                reject = RejectOf (Suc (Suc (nextPromise s))),
                timeoutId = Suc (Suc (nextTimeoutId s)), dispatched = False, dispatchedAt = 0\<rparr>)]"
  using assms by (simp add: sendRequest_def setTimeout_def Let_def)

lemma three_claims:
  assumes tbl: "pendingRequests s3 =
         [(k1, r1\<lparr>dispatched := False, dispatchedAt := 0\<rparr>),
          (k2, r2\<lparr>dispatched := False, dispatchedAt := 0\<rparr>),
          (k3, r3\<lparr>dispatched := False, dispatchedAt := 0\<rparr>)]"
    and ids: "id_field r1 = k1" "id_field r2 = k2" "id_field r3 = k3"
    and keys: "k1 \<noteq> k2" "k1 \<noteq> k3" "k2 \<noteq> k3"
    and ts: "timestamp r1 < timestamp r2" "timestamp r2 < timestamp r3"
    and ns: "n2 - n1 \<le> 45000" "n3 - n1 \<le> 45000" "n3 - n2 \<le> 45000"
  shows "fst (getPendingRequest n1 s3) = Some \<lparr>requestId = k1, request = (endpoint r1, data r1)\<rparr>"
    and "fst (getPendingRequest n2 (snd (getPendingRequest n1 s3))) =
           Some \<lparr>requestId = k2, request = (endpoint r2, data r2)\<rparr>"
    and "fst (getPendingRequest n3 (snd (getPendingRequest n2 (snd (getPendingRequest n1 s3))))) =
           Some \<lparr>requestId = k3, request = (endpoint r3, data r3)\<rparr>"
proof -
  have g1: "getPendingRequest n1 s3 =
      (Some \<lparr>requestId = k1, request = (endpoint r1, data r1)\<rparr>,
       s3\<lparr>pendingRequests :=
         [(k1, r1\<lparr>dispatched := True, dispatchedAt := n1\<rparr>),
          (k2, r2\<lparr>dispatched := False, dispatchedAt := 0\<rparr>),
          (k3, r3\<lparr>dispatched := False, dispatchedAt := 0\<rparr>)]\<rparr>)"
    using ids keys ts
    by (simp add: getPendingRequest_def tbl older_def mark_def)
  have g2: "getPendingRequest n2 (snd (getPendingRequest n1 s3)) =
      (Some \<lparr>requestId = k2, request = (endpoint r2, data r2)\<rparr>,
       s3\<lparr>pendingRequests :=
         [(k1, r1\<lparr>dispatched := True, dispatchedAt := n1\<rparr>),
          (k2, r2\<lparr>dispatched := True, dispatchedAt := n2\<rparr>),
          (k3, r3\<lparr>dispatched := False, dispatchedAt := 0\<rparr>)]\<rparr>)"
    unfolding g1 using ids keys ts ns
    by (simp add: getPendingRequest_def older_def mark_def dispatchStaleTimeout_def)
  have g3: "fst (getPendingRequest n3 (snd (getPendingRequest n2 (snd (getPendingRequest n1 s3))))) =
      Some \<lparr>requestId = k3, request = (endpoint r3, data r3)\<rparr>"
    unfolding g2 using ids keys ts ns
    by (simp add: getPendingRequest_def older_def mark_def dispatchStaleTimeout_def)
  show "fst (getPendingRequest n1 s3) = Some \<lparr>requestId = k1, request = (endpoint r1, data r1)\<rparr>"
    by (simp add: g1)
  show "fst (getPendingRequest n2 (snd (getPendingRequest n1 s3))) =
           Some \<lparr>requestId = k2, request = (endpoint r2, data r2)\<rparr>"
    by (simp add: g2)
  show "fst (getPendingRequest n3 (snd (getPendingRequest n2 (snd (getPendingRequest n1 s3))))) =
           Some \<lparr>requestId = k3, request = (endpoint r3, data r3)\<rparr>"
    by (rule g3)
qed

section \<open>Theorems\<close>

subsection \<open>Unknown ids\<close>

text \<open>
  C5. For an id that is not a key of the table, \<open>resolveRequest\<close> and \<open>rejectRequest\<close>
  return the state they were given: the table, the timers and the log of settlements are
  the same, nothing is settled, and there is no error branch to take.
\<close>

theorem unknown_id_noop:
  "map_of (pendingRequests s) rid = None \<longrightarrow>
     resolveRequest rid response s = s \<and> rejectRequest rid err s = s"
  by (simp add: resolveRequest_def rejectRequest_def)

theorem unknown_id_noop_witness:
  "getPendingCount oneClaimed = 3 \<and>
   map_of (pendingRequests oneClaimed) ''zzz'' = None \<and>
   resolveRequest ''zzz'' (Val 1) oneClaimed = oneClaimed \<and>
   rejectRequest ''zzz'' (Error ''x'') oneClaimed = oneClaimed \<and>
   getPendingCount oneResolved = 2 \<and>
   settlements oneResolved = [(ResolveOf 1, Val 7)] \<and>
   map_of (pendingRequests oneResolved) ''b'' = None \<and>
   resolveRequest ''b'' (Val 8) oneResolved = oneResolved \<and>
   rejectRequest ''b'' (Error ''late'') oneResolved = oneResolved"
proof -
  have n: "getPendingCount oneClaimed = 3" "getPendingCount oneResolved = 2"
    "settlements oneResolved = [(ResolveOf 1, Val 7)]"
    by code_simp+
  have z: "map_of (pendingRequests oneClaimed) ''zzz'' = None" by code_simp
  have b: "map_of (pendingRequests oneResolved) ''b'' = None" by code_simp
  from unknown_id_noop [of oneClaimed "''zzz''" "Val 1" "Error ''x''"] z
  have 1: "resolveRequest ''zzz'' (Val 1) oneClaimed = oneClaimed"
    "rejectRequest ''zzz'' (Error ''x'') oneClaimed = oneClaimed"
    by blast+
  from unknown_id_noop [of oneResolved "''b''" "Val 8" "Error ''late''"] b
  have 2: "resolveRequest ''b'' (Val 8) oneResolved = oneResolved"
    "rejectRequest ''b'' (Error ''late'') oneResolved = oneResolved"
    by blast+
  from n z b 1 2 show ?thesis by blast
qed

subsection \<open>Resolving and rejecting\<close>





subsection \<open>Sweeping and clearing\<close>

text \<open>
  C7. \<open>cleanupOldRequests\<close>, called at time \<open>now\<close>, leaves in the table exactly the entries
  with \<open>now - timestamp \<le> 60000\<close>, as they were and in their order; for each entry with
  \<open>now - timestamp > 60000\<close> it cancels the timer of the entry and calls its \<open>reject\<close> once
  with the error ``Request timeout''. Nothing else of the state changes. In a state that
  keeps the discipline of promises and timers, an entry that stays keeps its timer
  scheduled as it was, and the promise of an entry that goes is settled by that one call,
  whatever calls follow.
\<close>

theorem sweep_removes_exactly_expired:
  assumes "tableOk s"
  shows "cleanupOldRequests now s =
     s\<lparr>pendingRequests :=
         filter (\<lambda>(k, req). now - timestamp req \<le> 60000) (pendingRequests s),
       timeouts :=
         filter (\<lambda>(h, t). h \<notin> (timeoutId \<circ> snd) `
                   set (filter (\<lambda>(k, req). now - timestamp req > 60000) (pendingRequests s)))
           (timeouts s),
       settlements :=
         settlements s @
         map (\<lambda>(k, req). (reject req, Error ''Request timeout''))
           (filter (\<lambda>(k, req). now - timestamp req > 60000) (pendingRequests s))\<rparr> \<and>
     (runtimeOk s \<longrightarrow>
        list_all (\<lambda>(k, req).
            if now - timestamp req > 60000
            then map_of (pendingRequests (cleanupOldRequests now s)) k = None \<and>
                 map_of (timeouts (cleanupOldRequests now s)) (timeoutId req) = None \<and>
                 filter (\<lambda>(cb, v). promiseOf cb = promise req)
                   (settlements (run calls (cleanupOldRequests now s))) =
                   [(reject req, Error ''Request timeout'')]
            else map_of (pendingRequests (cleanupOldRequests now s)) k = Some req \<and>
                 map_of (timeouts (cleanupOldRequests now s)) (timeoutId req) =
                   map_of (timeouts s) (timeoutId req) \<and>
                 filter (\<lambda>(cb, v). promiseOf cb = promise req)
                   (settlements (cleanupOldRequests now s)) = [])
          (pendingRequests s))"
proof -
  let ?old = "filter (\<lambda>(k, req). now - timestamp req > 60000) (pendingRequests s)"
  let ?s' = "cleanupOldRequests now s"
  from assms have d: "distinct (map fst (pendingRequests s))" by (simp add: tableOk_def)
  have e: "(\<lambda>(k, req). expired now req) = (\<lambda>(k, req :: 'a PendingRequest). now - timestamp req > 60000)"
    by (simp add: expired_def requestTimeout_def)
  have n: "(\<lambda>kv :: string \<times> 'a PendingRequest. \<not> (case kv of (k, req) \<Rightarrow> now - timestamp req > 60000)) =
           (\<lambda>(k, req). now - timestamp req \<le> 60000)"
    by (auto simp: fun_eq_iff)
  have c: "?s' =
     s\<lparr>pendingRequests :=
         filter (\<lambda>(k, req). now - timestamp req \<le> 60000) (pendingRequests s),
       timeouts := filter (\<lambda>(h, t). h \<notin> (timeoutId \<circ> snd) ` set ?old) (timeouts s),
       settlements :=
         settlements s @ map (\<lambda>(k, req). (reject req, Error ''Request timeout'')) ?old\<rparr>"
    unfolding cleanupOldRequests_def cleanupLoop_closed e filter_keys_distinct [OF d] n ..
  have tbl: "pendingRequests ?s' =
      filter (\<lambda>(k, req). now - timestamp req \<le> 60000) (pendingRequests s)"
    and tms: "timeouts ?s' = filter (\<lambda>(h, t). h \<notin> (timeoutId \<circ> snd) ` set ?old) (timeouts s)"
    and log: "settlements ?s' =
      settlements s @ map (\<lambda>(k, req). (reject req, Error ''Request timeout'')) ?old"
    by (simp_all add: c)
  have each: "if now - timestamp req > 60000
            then map_of (pendingRequests ?s') k = None \<and>
                 map_of (timeouts ?s') (timeoutId req) = None \<and>
                 filter (\<lambda>(cb, v). promiseOf cb = promise req) (settlements (run calls ?s')) =
                   [(reject req, Error ''Request timeout'')]
            else map_of (pendingRequests ?s') k = Some req \<and>
                 map_of (timeouts ?s') (timeoutId req) = map_of (timeouts s) (timeoutId req) \<and>
                 filter (\<lambda>(cb, v). promiseOf cb = promise req) (settlements ?s') = []"
    if r: "runtimeOk s" and m: "(k, req) \<in> set (pendingRequests s)" for k req
  proof -
    from d m have look: "map_of (pendingRequests s) k = Some req" by simp
    have look': "map_of (pendingRequests ?s') k =
        (if now - timestamp req \<le> 60000 then Some req else None)"
      unfolding tbl lookup_filter_present [OF d look] by simp
    show ?thesis
    proof (cases "now - timestamp req > 60000")
      case True
      with m have o: "(k, req) \<in> set ?old" by simp
      then have "timeoutId req \<in> (timeoutId \<circ> snd) ` set ?old" by force
      then have 1: "map_of (timeouts ?s') (timeoutId req) = None"
        unfolding tms by (rule map_of_filter_notin)
      from o have "(reject req, Error ''Request timeout'') \<in> set (settlements ?s')"
        unfolding log by force
      from settled_forever [OF tableOk_cleanupOldRequests [OF assms]
          runtimeOk_cleanupOldRequests [OF r] this, of calls]
      have 2: "filter (\<lambda>(cb, v). promiseOf cb = promise req) (settlements (run calls ?s')) =
          [(reject req, Error ''Request timeout'')]"
        by (simp add: promise_def)
      from True look' 1 2 show ?thesis by simp
    next
      case False
      have "timeoutId req \<notin> (timeoutId \<circ> snd) ` set ?old"
      proof
        assume "timeoutId req \<in> (timeoutId \<circ> snd) ` set ?old"
        then obtain k' req' where o: "(k', req') \<in> set ?old" "timeoutId req' = timeoutId req"
          by auto
        from r have "inj_on (timeoutId \<circ> snd) (set (pendingRequests s))"
          unfolding runtimeOk_def by (simp add: distinct_map)
        from inj_onD [OF this _ _ m, of "(k', req')"] o have "req' = req" by simp
        with o(1) False show False by simp
      qed
      then have 1: "map_of (timeouts ?s') (timeoutId req) = map_of (timeouts s) (timeoutId req)"
        unfolding tms by (rule map_of_filter_keep)
      from False look' have "(k, req) \<in> set (pendingRequests ?s')"
        by (auto dest: map_of_SomeD)
      from unsettled_while_pending [OF runtimeOk_cleanupOldRequests [OF r] this]
      have 2: "filter (\<lambda>(cb, v). promiseOf cb = promise req) (settlements ?s') = []" .
      from False look' 1 2 show ?thesis by simp
    qed
  qed
  then have "runtimeOk s \<Longrightarrow> list_all (\<lambda>(k, req).
            if now - timestamp req > 60000
            then map_of (pendingRequests ?s') k = None \<and>
                 map_of (timeouts ?s') (timeoutId req) = None \<and>
                 filter (\<lambda>(cb, v). promiseOf cb = promise req) (settlements (run calls ?s')) =
                   [(reject req, Error ''Request timeout'')]
            else map_of (pendingRequests ?s') k = Some req \<and>
                 map_of (timeouts ?s') (timeoutId req) = map_of (timeouts s) (timeoutId req) \<and>
                 filter (\<lambda>(cb, v). promiseOf cb = promise req) (settlements ?s') = [])
          (pendingRequests s)"
    unfolding list_all_iff by blast
  with c show ?thesis by blast
qed

theorem sweep_removes_exactly_expired_witness:
  "tableOk oneClaimed \<and> runtimeOk oneClaimed \<and>
   cleanupOldRequests 60025 oneClaimed =
     \<lparr>pendingRequests =
        [(''c'', \<lparr>id_field = ''c'', endpoint = ''get_children'', data = Val 3, timestamp = 30,
           resolve = ResolveOf 2, reject = RejectOf 2, timeoutId = 2,
           dispatched = False, dispatchedAt = 0\<rparr>)],
      timeouts = [(2, \<lparr>capturedId = ''c'', capturedReject = RejectOf 2, delay = 60000\<rparr>)],
      nextTimeoutId = 3, nextPromise = 3,
      settlements =
        [(RejectOf 0, Error ''Request timeout''), (RejectOf 1, Error ''Request timeout'')]\<rparr> \<and>
   filter (\<lambda>(cb, v). promiseOf cb = 0)
     (settlements (run lateCalls (cleanupOldRequests 60025 oneClaimed))) =
     [(RejectOf 0, Error ''Request timeout'')] \<and>
   map_of (timeouts (cleanupOldRequests 60025 oneClaimed)) 2 = map_of (timeouts oneClaimed) 2"
proof -
  have ok: "tableOk oneClaimed" by code_simp
  have rt: "runtimeOk oneClaimed" by code_simp
  have v: "oneClaimed\<lparr>pendingRequests :=
         filter (\<lambda>(k, req). 60025 - timestamp req \<le> 60000) (pendingRequests oneClaimed),
       timeouts :=
         filter (\<lambda>(h, t). h \<notin> (timeoutId \<circ> snd) `
                   set (filter (\<lambda>(k, req). 60025 - timestamp req > 60000)
                          (pendingRequests oneClaimed)))
           (timeouts oneClaimed),
       settlements :=
         settlements oneClaimed @
         map (\<lambda>(k, req). (reject req, Error ''Request timeout''))
           (filter (\<lambda>(k, req). 60025 - timestamp req > 60000) (pendingRequests oneClaimed))\<rparr> =
     \<lparr>pendingRequests =
        [(''c'', \<lparr>id_field = ''c'', endpoint = ''get_children'', data = Val 3, timestamp = 30,
           resolve = ResolveOf 2, reject = RejectOf 2, timeoutId = 2,
           dispatched = False, dispatchedAt = 0\<rparr>)],
      timeouts = [(2, \<lparr>capturedId = ''c'', capturedReject = RejectOf 2, delay = 60000\<rparr>)],
      nextTimeoutId = 3, nextPromise = 3,
      settlements =
        [(RejectOf 0, Error ''Request timeout''), (RejectOf 1, Error ''Request timeout'')]\<rparr>"
    by (simp add: oneClaimed_value)
  note t = sweep_removes_exactly_expired [OF ok, of 60025 lateCalls]
  from t [THEN conjunct1] have 1: "cleanupOldRequests 60025 oneClaimed =
     \<lparr>pendingRequests =
        [(''c'', \<lparr>id_field = ''c'', endpoint = ''get_children'', data = Val 3, timestamp = 30,
           resolve = ResolveOf 2, reject = RejectOf 2, timeoutId = 2,
           dispatched = False, dispatchedAt = 0\<rparr>)],
      timeouts = [(2, \<lparr>capturedId = ''c'', capturedReject = RejectOf 2, delay = 60000\<rparr>)],
      nextTimeoutId = 3, nextPromise = 3,
      settlements =
        [(RejectOf 0, Error ''Request timeout''), (RejectOf 1, Error ''Request timeout'')]\<rparr>"
    unfolding v .
  from t [THEN conjunct2] rt have 2: "filter (\<lambda>(cb, v). promiseOf cb = 0)
     (settlements (run lateCalls (cleanupOldRequests 60025 oneClaimed))) =
     [(RejectOf 0, Error ''Request timeout'')]"
    and 3: "map_of (timeouts (cleanupOldRequests 60025 oneClaimed)) 2 =
      map_of (timeouts oneClaimed) 2"
    by (simp_all add: oneClaimed_table promise_def)
  from ok rt 1 2 3 show ?thesis by blast
qed

text \<open>
  C6. \<open>clearAllPendingRequests\<close> cancels the timer of every entry of the table, calls the
  \<open>reject\<close> of every entry once, in table order, with the error ``Connection closed'', and
  empties the table; nothing else of the state changes. Afterwards \<open>getPendingCount\<close> is
  0, no entry's timer is scheduled, and a second \<open>clearAllPendingRequests\<close> returns the state
  as it is. No field of an entry is tested: dispatched entries are treated like the others.
  In a state that keeps the discipline of promises and timers, the promise of every entry
  was not settled before, and it is settled by that one call, whatever calls follow.
\<close>

theorem clearAll_rejects_each_once:
  "clearAllPendingRequests s =
     s\<lparr>pendingRequests := [],
       timeouts := filter (\<lambda>(h, t). h \<notin> (timeoutId \<circ> snd) ` set (pendingRequests s)) (timeouts s),
       settlements :=
         settlements s @
         map (\<lambda>(k, req). (reject req, Error ''Connection closed'')) (pendingRequests s)\<rparr> \<and>
   getPendingCount (clearAllPendingRequests s) = 0 \<and>
   list_all (\<lambda>(k, req). map_of (timeouts (clearAllPendingRequests s)) (timeoutId req) = None)
     (pendingRequests s) \<and>
   clearAllPendingRequests (clearAllPendingRequests s) = clearAllPendingRequests s \<and>
   (tableOk s \<and> runtimeOk s \<longrightarrow>
      list_all (\<lambda>(k, req).
          filter (\<lambda>(cb, v). promiseOf cb = promise req) (settlements s) = [] \<and>
          filter (\<lambda>(cb, v). promiseOf cb = promise req)
            (settlements (run calls (clearAllPendingRequests s))) =
            [(reject req, Error ''Connection closed'')])
        (pendingRequests s))"
proof (intro conjI impI)
  show "clearAllPendingRequests s =
     s\<lparr>pendingRequests := [],
       timeouts := filter (\<lambda>(h, t). h \<notin> (timeoutId \<circ> snd) ` set (pendingRequests s)) (timeouts s),
       settlements :=
         settlements s @
         map (\<lambda>(k, req). (reject req, Error ''Connection closed'')) (pendingRequests s)\<rparr>"
    by (rule clearAll_closed)
  show "getPendingCount (clearAllPendingRequests s) = 0"
    by (simp add: getPendingCount_def clearAllPendingRequests_def)
  show "list_all (\<lambda>(k, req). map_of (timeouts (clearAllPendingRequests s)) (timeoutId req) = None)
     (pendingRequests s)"
    unfolding list_all_iff
  proof (clarify)
    fix k req assume "(k, req) \<in> set (pendingRequests s)"
    then have "timeoutId req \<in> (timeoutId \<circ> snd) ` set (pendingRequests s)" by force
    from map_of_filter_notin [OF this]
    show "map_of (timeouts (clearAllPendingRequests s)) (timeoutId req) = None"
      by (simp add: clearAll_closed)
  qed
  have e: "pendingRequests (clearAllPendingRequests s) = []"
    by (simp add: clearAllPendingRequests_def)
  show "clearAllPendingRequests (clearAllPendingRequests s) = clearAllPendingRequests s"
    by (subst clearAll_closed) (simp add: e)
  assume inv: "tableOk s \<and> runtimeOk s"
  show "list_all (\<lambda>(k, req).
          filter (\<lambda>(cb, v). promiseOf cb = promise req) (settlements s) = [] \<and>
          filter (\<lambda>(cb, v). promiseOf cb = promise req)
            (settlements (run calls (clearAllPendingRequests s))) =
            [(reject req, Error ''Connection closed'')])
        (pendingRequests s)"
    unfolding list_all_iff
  proof (clarify)
    fix k req assume m: "(k, req) \<in> set (pendingRequests s)"
    from inv have r: "runtimeOk s" ..
    have 1: "filter (\<lambda>(cb, v). promiseOf cb = promise req) (settlements s) = []"
      by (rule unsettled_while_pending [OF r m])
    from m have "(reject req, Error ''Connection closed'') \<in>
        set (settlements (clearAllPendingRequests s))"
      by (force simp: clearAll_closed)
    from settled_forever [OF tableOk_clearAll runtimeOk_clearAll [OF r] this, of calls]
    have 2: "filter (\<lambda>(cb, v). promiseOf cb = promise req)
            (settlements (run calls (clearAllPendingRequests s))) =
            [(reject req, Error ''Connection closed'')]"
      by (simp add: promise_def)
    from 1 2 show "filter (\<lambda>(cb, v). promiseOf cb = promise req) (settlements s) = [] \<and>
          filter (\<lambda>(cb, v). promiseOf cb = promise req)
            (settlements (run calls (clearAllPendingRequests s))) =
            [(reject req, Error ''Connection closed'')]" ..
  qed
qed

theorem clearAll_rejects_each_once_witness:
  "tableOk oneClaimed \<and> runtimeOk oneClaimed \<and>
   map (dispatched \<circ> snd) (pendingRequests oneClaimed) = [True, False, False] \<and>
   clearAllPendingRequests oneClaimed =
     \<lparr>pendingRequests = [], timeouts = [], nextTimeoutId = 3, nextPromise = 3,
      settlements =
        [(RejectOf 0, Error ''Connection closed''), (RejectOf 1, Error ''Connection closed''),
         (RejectOf 2, Error ''Connection closed'')]\<rparr> \<and>
   getPendingCount (clearAllPendingRequests oneClaimed) = 0 \<and>
   filter (\<lambda>(cb, v). promiseOf cb = 1)
     (settlements (run lateCalls (clearAllPendingRequests oneClaimed))) =
     [(RejectOf 1, Error ''Connection closed'')]"
proof -
  have ok: "tableOk oneClaimed \<and> runtimeOk oneClaimed" by code_simp
  have d: "map (dispatched \<circ> snd) (pendingRequests oneClaimed) = [True, False, False]"
    by code_simp
  have v: "oneClaimed\<lparr>pendingRequests := [],
       timeouts := filter (\<lambda>(h, t). h \<notin> (timeoutId \<circ> snd) ` set (pendingRequests oneClaimed))
                     (timeouts oneClaimed),
       settlements :=
         settlements oneClaimed @
         map (\<lambda>(k, req). (reject req, Error ''Connection closed'')) (pendingRequests oneClaimed)\<rparr> =
     \<lparr>pendingRequests = [], timeouts = [], nextTimeoutId = 3, nextPromise = 3,
      settlements =
        [(RejectOf 0, Error ''Connection closed''), (RejectOf 1, Error ''Connection closed''),
         (RejectOf 2, Error ''Connection closed'')]\<rparr>"
    by (simp add: oneClaimed_value)
  note t = clearAll_rejects_each_once [of oneClaimed lateCalls]
  from t have 1: "clearAllPendingRequests oneClaimed =
     \<lparr>pendingRequests = [], timeouts = [], nextTimeoutId = 3, nextPromise = 3,
      settlements =
        [(RejectOf 0, Error ''Connection closed''), (RejectOf 1, Error ''Connection closed''),
         (RejectOf 2, Error ''Connection closed'')]\<rparr>"
    and 2: "getPendingCount (clearAllPendingRequests oneClaimed) = 0"
    unfolding v by blast+
  from t [THEN conjunct2, THEN conjunct2, THEN conjunct2, THEN conjunct2] ok
  have 3: "filter (\<lambda>(cb, v). promiseOf cb = 1)
     (settlements (run lateCalls (clearAllPendingRequests oneClaimed))) =
     [(RejectOf 1, Error ''Connection closed'')]"
    by (simp add: oneClaimed_table promise_def)
  from ok d 1 2 3 show ?thesis by blast
qed

subsection \<open>Dispatch\<close>

text \<open>
  C1. Let \<open>getPendingRequest\<close>, called at time \<open>t0\<close>, return a request. Then its entry is in
  the table, marked dispatched at \<open>t0\<close>; and after any further calls of the bridge, claims
  among them made no later than 45 seconds after \<open>t0\<close> and no \<open>sendRequest\<close> drawing the
  same id again, a \<open>getPendingRequest\<close> called no later than 45 seconds after \<open>t0\<close> does not
  return that id. The further calls may resolve, reject, expire or clear the request: then
  it is gone, and not returned either. Every call within the sequence is covered, being
  the last call after a prefix. And in any state, an entry that is dispatched with
  \<open>now - dispatchedAt \<le> 45000\<close> is not returned by \<open>getPendingRequest\<close> at \<open>now\<close>, and is left as
  it is.
\<close>

theorem at_most_one_live_dispatch:
  assumes "tableOk s"
    and "getPendingRequest t0 s = (Some c, s1)"
    and "list_all (withinDispatch (requestId c) t0) calls"
    and "now - t0 \<le> 45000"
  shows "(\<exists>req. map_of (pendingRequests s1) (requestId c) = Some req \<and>
            dispatched req \<and> dispatchedAt req = t0) \<and>
         (\<forall>c'. fst (getPendingRequest now (run calls s1)) = Some c' \<longrightarrow>
            requestId c' \<noteq> requestId c) \<and>
         (tableOk s2 \<and> map_of (pendingRequests s2) rid = Some req2 \<and> dispatched req2 \<and>
          now2 - dispatchedAt req2 \<le> 45000 \<longrightarrow>
            (\<forall>c'. fst (getPendingRequest now2 s2) = Some c' \<longrightarrow> requestId c' \<noteq> rid) \<and>
            map_of (pendingRequests (snd (getPendingRequest now2 s2))) rid = Some req2)"
proof -
  have ok1: "tableOk s1"
    using tableOk_getPendingRequest [OF assms(1), of t0] assms(2) by simp
  have m: "\<exists>req. map_of (pendingRequests s1) (requestId c) = Some req \<and>
            dispatched req \<and> dispatchedAt req = t0"
    by (rule held_after_claim [OF assms(1,2)])
  then have "held (requestId c) t0 s1" by (auto simp: held_def)
  then have h: "held (requestId c) t0 (run calls s1)"
    using ok1 assms(3) by (simp add: held_run)
  have ok2: "tableOk (run calls s1)" using ok1 by (rule tableOk_run)
  have "requestId c' \<noteq> requestId c"
    if "fst (getPendingRequest now (run calls s1)) = Some c'" for c'
  proof -
    from that have
      "getPendingRequest now (run calls s1) = (Some c', snd (getPendingRequest now (run calls s1)))"
      by (simp add: prod_eq_iff)
    from held_not_claimed [OF ok2 h _ this] assms(4) show ?thesis
      by (simp add: dispatchStaleTimeout_def)
  qed
  moreover have "(\<forall>c'. fst (getPendingRequest now2 s2) = Some c' \<longrightarrow> requestId c' \<noteq> rid) \<and>
            map_of (pendingRequests (snd (getPendingRequest now2 s2))) rid = Some req2"
    if "tableOk s2 \<and> map_of (pendingRequests s2) rid = Some req2 \<and> dispatched req2 \<and>
          now2 - dispatchedAt req2 \<le> 45000"
  proof -
    from that have "\<not> claimable now2 req2"
      by (simp add: claimable_def dispatchStaleTimeout_def)
    with that show ?thesis by (intro live_entry_untouched) simp_all
  qed
  ultimately show ?thesis using m by blast
qed

theorem at_most_one_live_dispatch_witness:
  "tableOk threeSent \<and>
   getPendingRequest 100 threeSent =
     (Some \<lparr>requestId = ''a'', request = (''get_file_tree'', Val 1)\<rparr>, oneClaimed) \<and>
   list_all (withinDispatch ''a'' 100) liveCalls \<and>
   fst (getPendingRequest 45100 (run liveCalls oneClaimed)) =
     Some \<lparr>requestId = ''c'', request = (''get_children'', Val 3)\<rparr> \<and>
   map_option requestId (fst (getPendingRequest 45100 (run liveCalls oneClaimed))) \<noteq> Some ''a'' \<and>
   tableOk oneClaimed \<and>
   map_of (pendingRequests (snd (getPendingRequest 45100 oneClaimed))) ''a'' =
     Some \<lparr>id_field = ''a'', endpoint = ''get_file_tree'', data = Val 1, timestamp = 10,
           resolve = ResolveOf 0, reject = RejectOf 0, timeoutId = 0,
           dispatched = True, dispatchedAt = 100\<rparr>"
proof -
  have ok: "tableOk threeSent" by code_simp
  have g: "getPendingRequest 100 threeSent =
     (Some \<lparr>requestId = ''a'', request = (''get_file_tree'', Val 1)\<rparr>, oneClaimed)"
    by code_simp
  have l: "list_all (withinDispatch
             (requestId \<lparr>requestId = ''a'', request = (''get_file_tree'', Val (1::nat))\<rparr>) 100)
             liveCalls"
    by code_simp
  have r: "fst (getPendingRequest 45100 (run liveCalls oneClaimed)) =
     Some \<lparr>requestId = ''c'', request = (''get_children'', Val 3)\<rparr>"
    by code_simp
  have n: "(45100 :: int) - 100 \<le> 45000" by simp
  have ok': "tableOk oneClaimed" by code_simp
  have a: "map_of (pendingRequests oneClaimed) ''a'' =
     Some \<lparr>id_field = ''a'', endpoint = ''get_file_tree'', data = Val 1, timestamp = 10,
           resolve = ResolveOf 0, reject = RejectOf 0, timeoutId = 0,
           dispatched = True, dispatchedAt = 100\<rparr>"
    by code_simp
  note t = at_most_one_live_dispatch [OF ok g l n, where ?s2.0 = oneClaimed and rid = "''a''"
      and ?now2.0 = 45100
      and ?req2.0 = "\<lparr>id_field = ''a'', endpoint = ''get_file_tree'', data = Val 1, timestamp = 10,
           resolve = ResolveOf 0, reject = RejectOf 0, timeoutId = 0,
           dispatched = True, dispatchedAt = 100\<rparr>"]
  from t [THEN conjunct2, THEN conjunct1]
  have "\<forall>c'. fst (getPendingRequest 45100 (run liveCalls oneClaimed)) = Some c' \<longrightarrow>
          requestId c' \<noteq> ''a''"
    by simp
  then have 1: "map_option requestId (fst (getPendingRequest 45100 (run liveCalls oneClaimed))) \<noteq>
      Some ''a''"
    by (cases "fst (getPendingRequest 45100 (run liveCalls oneClaimed))") auto
  from t [THEN conjunct2, THEN conjunct2] ok' a
  have 2: "map_of (pendingRequests (snd (getPendingRequest 45100 oneClaimed))) ''a'' =
     Some \<lparr>id_field = ''a'', endpoint = ''get_file_tree'', data = Val 1, timestamp = 10,
           resolve = ResolveOf 0, reject = RejectOf 0, timeoutId = 0,
           dispatched = True, dispatchedAt = 100\<rparr>"
    by simp
  from l have 3: "list_all (withinDispatch ''a'' 100) liveCalls" by simp
  from ok g r ok' 1 2 3 show ?thesis by blast
qed

text \<open>
  C3. Let \<open>getPendingRequest\<close> be called at time \<open>now\<close>, and let \<open>req\<close> be a dispatched entry
  of the table, under the key \<open>k\<close>. The call keeps every key where it stands. If
  \<open>now - dispatchedAt req > 45000\<close>, the loop resets the entry where it stands to
  \<open>dispatched = False\<close>, \<open>dispatchedAt = 0\<close>, and so the call leaves it unless the entry is the
  one returned, which is then marked dispatched at \<open>now\<close>. If
  \<open>now - dispatchedAt req \<le> 45000\<close>, the entry is not returned and stays as it was.
\<close>

theorem stale_recovery_in_scan:
  assumes "tableOk s"
    and "getPendingRequest now s = (c, s')"
    and "map_of (pendingRequests s) k = Some req"
    and "dispatched req"
  shows "map fst (pendingRequests s') = map fst (pendingRequests s) \<and>
         (now - dispatchedAt req > 45000 \<longrightarrow>
            map_of (fst (scan now (pendingRequests s) None)) k =
              Some (req\<lparr>dispatched := False, dispatchedAt := 0\<rparr>) \<and>
            map_of (pendingRequests s') k =
              Some (if map_option requestId c = Some k
                    then req\<lparr>dispatched := True, dispatchedAt := now\<rparr>
                    else req\<lparr>dispatched := False, dispatchedAt := 0\<rparr>)) \<and>
         (now - dispatchedAt req \<le> 45000 \<longrightarrow>
            map_option requestId c \<noteq> Some k \<and>
            map_of (fst (scan now (pendingRequests s) None)) k = Some req \<and>
            map_of (pendingRequests s') k = Some req)"
proof -
  have sc: "map_of (fst (scan now (pendingRequests s) None)) k = Some (recover now req)"
    using assms(3) by (simp add: scan_fst staleRecovery_def map_of_map_keyed)
  have stale: "recover now req = req\<lparr>dispatched := False, dispatchedAt := 0\<rparr>"
    "claimable now req" if "now - dispatchedAt req > 45000"
    using that assms(4) by (simp_all add: recover_def claimable_def dispatchStaleTimeout_def)
  have live: "recover now req = req" "\<not> claimable now req" if "now - dispatchedAt req \<le> 45000"
    using that assms(4) by (simp_all add: recover_def claimable_def dispatchStaleTimeout_def)
  have mk: "mark now (req\<lparr>dispatched := False, dispatchedAt := 0\<rparr>) =
            req\<lparr>dispatched := True, dispatchedAt := now\<rparr>"
    by (simp add: mark_def)
  show ?thesis
  proof (cases c)
    case None
    with assms(2) have s': "s' = s" by (simp add: claim_NoneD)
    from None assms(2) have "\<forall>(k, req) \<in> set (pendingRequests s). \<not> claimable now req"
      using claim_None_iff [of now s] by simp
    moreover from assms(3) have "(k, req) \<in> set (pendingRequests s)" by (rule map_of_SomeD)
    ultimately have "\<not> claimable now req" by auto
    with stale(2) have "now - dispatchedAt req \<le> 45000" by force
    with None s' sc live assms(3) show ?thesis by simp
  next
    case (Some c0)
    from claim_SomeD [OF assms(1) assms(2) [unfolded Some]] obtain r0 where
      r0: "map_of (pendingRequests s) (requestId c0) = Some r0" "claimable now r0" and
      s': "s' = s\<lparr>pendingRequests :=
            map (\<lambda>(k', req'). (k', if k' = requestId c0 then mark now (recover now req')
                                     else recover now req')) (pendingRequests s)\<rparr>"
      by blast
    have keys: "map fst (pendingRequests s') = map fst (pendingRequests s)"
      unfolding s' by (simp add: comp_def case_prod_unfold)
    have look: "map_of (pendingRequests s') k =
        Some (if k = requestId c0 then mark now (recover now req) else recover now req)"
      unfolding s' using assms(3) by (simp add: map_of_map_keyed)
    have ne: "requestId c0 \<noteq> k" if "now - dispatchedAt req \<le> 45000"
      using live(2) [OF that] r0 assms(3) by auto
    show ?thesis
      using keys look sc Some stale(1) live(1) ne mk by auto
  qed
qed

theorem stale_recovery_in_scan_witness:
  "tableOk twoClaimed \<and>
   map_of (pendingRequests twoClaimed) ''b'' =
     Some \<lparr>id_field = ''b'', endpoint = ''set_property'', data = Val 2, timestamp = 20,
           resolve = ResolveOf 1, reject = RejectOf 1, timeoutId = 1,
           dispatched = True, dispatchedAt = 200\<rparr> \<and>
   fst (getPendingRequest 50000 twoClaimed) =
     Some \<lparr>requestId = ''a'', request = (''get_file_tree'', Val 1)\<rparr> \<and>
   map_of (pendingRequests (snd (getPendingRequest 50000 twoClaimed))) ''b'' =
     Some \<lparr>id_field = ''b'', endpoint = ''set_property'', data = Val 2, timestamp = 20,
           resolve = ResolveOf 1, reject = RejectOf 1, timeoutId = 1,
           dispatched = False, dispatchedAt = 0\<rparr>"
proof -
  have ok: "tableOk twoClaimed" by code_simp
  have b: "map_of (pendingRequests twoClaimed) ''b'' =
     Some \<lparr>id_field = ''b'', endpoint = ''set_property'', data = Val 2, timestamp = 20,
           resolve = ResolveOf 1, reject = RejectOf 1, timeoutId = 1,
           dispatched = True, dispatchedAt = 200\<rparr>"
    by code_simp
  have c: "fst (getPendingRequest 50000 twoClaimed) =
     Some \<lparr>requestId = ''a'', request = (''get_file_tree'', Val 1)\<rparr>"
    by code_simp
  then have g: "getPendingRequest 50000 twoClaimed =
     (Some \<lparr>requestId = ''a'', request = (''get_file_tree'', Val 1)\<rparr>,
      snd (getPendingRequest 50000 twoClaimed))"
    by (simp add: prod_eq_iff)
  from stale_recovery_in_scan [OF ok g b]
  have "map_of (pendingRequests (snd (getPendingRequest 50000 twoClaimed))) ''b'' =
     Some \<lparr>id_field = ''b'', endpoint = ''set_property'', data = Val 2, timestamp = 20,
           resolve = ResolveOf 1, reject = RejectOf 1, timeoutId = 1,
           dispatched = False, dispatchedAt = 0\<rparr>"
    by simp
  with ok b c show ?thesis by blast
qed

subsection \<open>Which request is claimed\<close>

text \<open>
  C2 (amended). On a table with distinct keys, \<open>getPendingRequest\<close> is the operation
  \<open>claimNext\<close>: after the reset of stale dispatches, among the entries that are not
  dispatched it takes the one with the smallest \<open>timestamp\<close>, the first in scan order
  among equals, marks it dispatched at \<open>now\<close> and returns its id, endpoint and data; with
  no such entry it returns nothing. And three requests sent to an empty table at times
  \<open>t1 < t2 < t3\<close> are returned in that order by three successive calls, provided each call
  comes no more than 45 seconds after the calls before it.
\<close>

theorem oldest_first:
  "(tableOk s \<longrightarrow> getPendingRequest now s = claimNext now s) \<and>
   (pendingRequests s0 = [] \<and> k1 \<noteq> k2 \<and> k1 \<noteq> k3 \<and> k2 \<noteq> k3 \<and> t1 < t2 \<and> t2 < t3 \<and>
    n2 - n1 \<le> 45000 \<and> n3 - n1 \<le> 45000 \<and> n3 - n2 \<le> 45000 \<longrightarrow>
      (let s3 = run [SendRequest k1 e1 d1 t1, SendRequest k2 e2 d2 t2,
                     SendRequest k3 e3 d3 t3] s0;
           s4 = snd (getPendingRequest n1 s3);
           s5 = snd (getPendingRequest n2 s4)
       in fst (getPendingRequest n1 s3) = Some \<lparr>requestId = k1, request = (e1, d1)\<rparr> \<and>
          fst (getPendingRequest n2 s4) = Some \<lparr>requestId = k2, request = (e2, d2)\<rparr> \<and>
          fst (getPendingRequest n3 s5) = Some \<lparr>requestId = k3, request = (e3, d3)\<rparr>))"
proof (intro conjI impI)
  assume "tableOk s"
  then show "getPendingRequest now s = claimNext now s" by (rule getPendingRequest_claimNext)
next
  assume a: "pendingRequests s0 = [] \<and> k1 \<noteq> k2 \<and> k1 \<noteq> k3 \<and> k2 \<noteq> k3 \<and> t1 < t2 \<and> t2 < t3 \<and>
    n2 - n1 \<le> 45000 \<and> n3 - n1 \<le> 45000 \<and> n3 - n2 \<le> 45000"
  let ?r1 = "\<lparr>id_field = k1, endpoint = e1, data = d1, timestamp = t1,
                resolve = ResolveOf (nextPromise s0), reject = RejectOf (nextPromise s0),
                timeoutId = nextTimeoutId s0, dispatched = False, dispatchedAt = 0\<rparr>"
  let ?r2 = "\<lparr>id_field = k2, endpoint = e2, data = d2, timestamp = t2,
                resolve = ResolveOf (Suc (nextPromise s0)),
                reject = RejectOf (Suc (nextPromise s0)),
                timeoutId = Suc (nextTimeoutId s0), dispatched = False, dispatchedAt = 0\<rparr>"
  let ?r3 = "\<lparr>id_field = k3, endpoint = e3, data = d3, timestamp = t3,
                resolve = ResolveOf (Suc (Suc (nextPromise s0))),
                reject = RejectOf (Suc (Suc (nextPromise s0))),
                timeoutId = Suc (Suc (nextTimeoutId s0)), dispatched = False, dispatchedAt = 0\<rparr>"
  let ?s3 = "run [SendRequest k1 e1 d1 t1, SendRequest k2 e2 d2 t2, SendRequest k3 e3 d3 t3] s0"
  from a have tbl: "pendingRequests ?s3 =
      [(k1, ?r1\<lparr>dispatched := False, dispatchedAt := 0\<rparr>),
       (k2, ?r2\<lparr>dispatched := False, dispatchedAt := 0\<rparr>),
       (k3, ?r3\<lparr>dispatched := False, dispatchedAt := 0\<rparr>)]"
    using three_sent [of s0 k1 k2 k3 e1 d1 t1 e2 d2 t2 e3 d3 t3] by simp
  from a have
    "fst (getPendingRequest n1 ?s3) = Some \<lparr>requestId = k1, request = (e1, d1)\<rparr>"
    "fst (getPendingRequest n2 (snd (getPendingRequest n1 ?s3))) =
       Some \<lparr>requestId = k2, request = (e2, d2)\<rparr>"
    "fst (getPendingRequest n3 (snd (getPendingRequest n2 (snd (getPendingRequest n1 ?s3))))) =
       Some \<lparr>requestId = k3, request = (e3, d3)\<rparr>"
    using three_claims [OF tbl, of n2 n1 n3] by simp_all
  then show "let s3 = ?s3;
           s4 = snd (getPendingRequest n1 s3);
           s5 = snd (getPendingRequest n2 s4)
       in fst (getPendingRequest n1 s3) = Some \<lparr>requestId = k1, request = (e1, d1)\<rparr> \<and>
          fst (getPendingRequest n2 s4) = Some \<lparr>requestId = k2, request = (e2, d2)\<rparr> \<and>
          fst (getPendingRequest n3 s5) = Some \<lparr>requestId = k3, request = (e3, d3)\<rparr>"
    unfolding Let_def by blast
qed

theorem oldest_first_witness:
  "tableOk twoClaimed \<and>
   getPendingRequest 50000 twoClaimed = claimNext 50000 twoClaimed \<and>
   fst (getPendingRequest 100 threeSent) =
     Some \<lparr>requestId = ''a'', request = (''get_file_tree'', Val 1)\<rparr> \<and>
   fst (getPendingRequest 200 (snd (getPendingRequest 100 threeSent))) =
     Some \<lparr>requestId = ''b'', request = (''set_property'', Val 2)\<rparr> \<and>
   fst (getPendingRequest 45100
          (snd (getPendingRequest 200 (snd (getPendingRequest 100 threeSent))))) =
     Some \<lparr>requestId = ''c'', request = (''get_children'', Val 3)\<rparr>"
proof -
  have ok: "tableOk twoClaimed" by code_simp
  note t = oldest_first [of twoClaimed 50000 "newBridgeService :: nat state"
      "''a''" "''b''" "''c''" 10 20 30 200 100 45100
      "''get_file_tree''" "Val 1" "''set_property''" "Val 2" "''get_children''" "Val 3"]
  from t ok have g: "getPendingRequest 50000 twoClaimed = claimNext 50000 twoClaimed" by blast
  have e: "pendingRequests (newBridgeService :: nat state) = []"
    by (simp add: newBridgeService_def)
  from t [THEN conjunct2] e have
    "fst (getPendingRequest 100 threeSent) =
       Some \<lparr>requestId = ''a'', request = (''get_file_tree'', Val 1)\<rparr> \<and>
     fst (getPendingRequest 200 (snd (getPendingRequest 100 threeSent))) =
       Some \<lparr>requestId = ''b'', request = (''set_property'', Val 2)\<rparr> \<and>
     fst (getPendingRequest 45100
            (snd (getPendingRequest 200 (snd (getPendingRequest 100 threeSent))))) =
       Some \<lparr>requestId = ''c'', request = (''get_children'', Val 3)\<rparr>"
    unfolding threeSent_def Let_def by simp
  with ok g show ?thesis by blast
qed

text \<open>Without the bound on the times of the calls the order is lost: when the second call
  comes more than 45 seconds after the first, the first request is stale by then, and is
  returned again before the second.\<close>

theorem oldest_first_counterexample:
  "fst (getPendingRequest 100
          (run [SendRequest ''a'' ''get_file_tree'' (Val 1) 10,
                SendRequest ''b'' ''set_property'' (Val 2) 20,
                SendRequest ''c'' ''get_children'' (Val 3) 30] (newBridgeService :: nat state))) =
     Some \<lparr>requestId = ''a'', request = (''get_file_tree'', Val 1)\<rparr> \<and>
   fst (getPendingRequest 50000
          (snd (getPendingRequest 100
             (run [SendRequest ''a'' ''get_file_tree'' (Val 1) 10,
                   SendRequest ''b'' ''set_property'' (Val 2) 20,
                   SendRequest ''c'' ''get_children'' (Val 3) 30]
                (newBridgeService :: nat state))))) =
     Some \<lparr>requestId = ''a'', request = (''get_file_tree'', Val 1)\<rparr>"
  by code_simp

subsection \<open>Claiming a request again\<close>

text \<open>
  C8 (amended). Let a call of \<open>getPendingRequest\<close> at time \<open>now\<close> return the id of an
  entry \<open>req\<close> that was dispatched already. Then that dispatch was stale, and the call changes
  the table in place and only in the fields \<open>dispatched\<close> and \<open>dispatchedAt\<close>: the entry
  returned has \<open>dispatchedAt = now\<close>, every other entry whose dispatch is stale is reset
  to \<open>dispatched = False\<close>, \<open>dispatchedAt = 0\<close>, and every other entry is as it was. The keys
  are the same, in the same order: no entry is added or removed, and \<open>getPendingCount\<close> is
  unchanged. Nothing outside the table changes.
\<close>

theorem stale_reclaim_in_place:
  assumes "tableOk s"
    and "map_of (pendingRequests s) rid = Some req"
    and "dispatched req"
    and "getPendingRequest now s = (Some c, s')"
    and "requestId c = rid"
  shows "now - dispatchedAt req > 45000 \<and>
         s' = s\<lparr>pendingRequests :=
                 map (\<lambda>(k, r). (k, if k = rid then r\<lparr>dispatchedAt := now\<rparr>
                                    else if dispatched r \<and> now - dispatchedAt r > 45000
                                    then r\<lparr>dispatched := False, dispatchedAt := 0\<rparr>
                                    else r)) (pendingRequests s)\<rparr> \<and>
         map fst (pendingRequests s') = map fst (pendingRequests s) \<and>
         getPendingCount s' = getPendingCount s"
proof -
  from claim_SomeD [OF assms(1,4)] assms(2,5) have cl: "claimable now req" and
    s': "s' = s\<lparr>pendingRequests :=
            map (\<lambda>(k', req'). (k', if k' = rid then mark now (recover now req')
                                     else recover now req')) (pendingRequests s)\<rparr>"
    by auto
  from cl assms(3) have st: "now - dispatchedAt req > 45000"
    by (simp add: claimable_def dispatchStaleTimeout_def)
  have d: "distinct (map fst (pendingRequests s))" using assms(1) by (simp add: tableOk_def)
  have "(if k = rid then mark now (recover now r) else recover now r) =
        (if k = rid then r\<lparr>dispatchedAt := now\<rparr>
         else if dispatched r \<and> now - dispatchedAt r > 45000
         then r\<lparr>dispatched := False, dispatchedAt := 0\<rparr> else r)"
    if "(k, r) \<in> set (pendingRequests s)" for k r
  proof (cases "k = rid")
    case True
    with that d assms(2) have "r = req" by simp
    with True assms(3) show ?thesis by (simp add: mark_def recover_def)
  next
    case False
    then show ?thesis by (simp add: recover_def)
  qed
  then have "map (\<lambda>(k', req'). (k', if k' = rid then mark now (recover now req')
                                     else recover now req')) (pendingRequests s) =
        map (\<lambda>(k, r). (k, if k = rid then r\<lparr>dispatchedAt := now\<rparr>
                                    else if dispatched r \<and> now - dispatchedAt r > 45000
                                    then r\<lparr>dispatched := False, dispatchedAt := 0\<rparr>
                                    else r)) (pendingRequests s)"
    by (intro map_cong refl) auto
  with s' have e: "s' = s\<lparr>pendingRequests :=
                 map (\<lambda>(k, r). (k, if k = rid then r\<lparr>dispatchedAt := now\<rparr>
                                    else if dispatched r \<and> now - dispatchedAt r > 45000
                                    then r\<lparr>dispatched := False, dispatchedAt := 0\<rparr>
                                    else r)) (pendingRequests s)\<rparr>"
    by simp
  have "map fst (pendingRequests s') = map fst (pendingRequests s)"
    unfolding e by (simp add: comp_def case_prod_unfold)
  moreover have "getPendingCount s' = getPendingCount s"
    unfolding e by (simp add: getPendingCount_def)
  ultimately show ?thesis using st e by blast
qed

theorem stale_reclaim_in_place_witness:
  "tableOk oneClaimed \<and>
   getPendingRequest 45101 oneClaimed =
     (Some \<lparr>requestId = ''a'', request = (''get_file_tree'', Val 1)\<rparr>,
      oneClaimed\<lparr>pendingRequests :=
        [(''a'', \<lparr>id_field = ''a'', endpoint = ''get_file_tree'', data = Val 1, timestamp = 10,
           resolve = ResolveOf 0, reject = RejectOf 0, timeoutId = 0,
           dispatched = True, dispatchedAt = 45101\<rparr>),
         (''b'', \<lparr>id_field = ''b'', endpoint = ''set_property'', data = Val 2, timestamp = 20,
           resolve = ResolveOf 1, reject = RejectOf 1, timeoutId = 1,
           dispatched = False, dispatchedAt = 0\<rparr>),
         (''c'', \<lparr>id_field = ''c'', endpoint = ''get_children'', data = Val 3, timestamp = 30,
           resolve = ResolveOf 2, reject = RejectOf 2, timeoutId = 2,
           dispatched = False, dispatchedAt = 0\<rparr>)]\<rparr>) \<and>
   getPendingCount (snd (getPendingRequest 45101 oneClaimed)) = getPendingCount oneClaimed \<and>
   getPendingCount oneClaimed = 3"
proof -
  have ok: "tableOk oneClaimed" by code_simp
  have a: "map_of (pendingRequests oneClaimed) ''a'' =
     Some \<lparr>id_field = ''a'', endpoint = ''get_file_tree'', data = Val 1, timestamp = 10,
           resolve = ResolveOf 0, reject = RejectOf 0, timeoutId = 0,
           dispatched = True, dispatchedAt = 100\<rparr>"
    by code_simp
  have c: "fst (getPendingRequest 45101 oneClaimed) =
     Some \<lparr>requestId = ''a'', request = (''get_file_tree'', Val 1)\<rparr>"
    by code_simp
  then have g: "getPendingRequest 45101 oneClaimed =
     (Some \<lparr>requestId = ''a'', request = (''get_file_tree'', Val 1)\<rparr>,
      snd (getPendingRequest 45101 oneClaimed))"
    by (simp add: prod_eq_iff)
  have n: "getPendingCount oneClaimed = 3" by code_simp
  have v: "map (\<lambda>(k, r). (k, if k = ''a'' then r\<lparr>dispatchedAt := 45101\<rparr>
                                    else if dispatched r \<and> 45101 - dispatchedAt r > 45000
                                    then r\<lparr>dispatched := False, dispatchedAt := 0\<rparr>
                                    else r)) (pendingRequests oneClaimed) =
        [(''a'', \<lparr>id_field = ''a'', endpoint = ''get_file_tree'', data = Val 1, timestamp = 10,
           resolve = ResolveOf 0, reject = RejectOf 0, timeoutId = 0,
           dispatched = True, dispatchedAt = 45101\<rparr>),
         (''b'', \<lparr>id_field = ''b'', endpoint = ''set_property'', data = Val 2, timestamp = 20,
           resolve = ResolveOf 1, reject = RejectOf 1, timeoutId = 1,
           dispatched = False, dispatchedAt = 0\<rparr>),
         (''c'', \<lparr>id_field = ''c'', endpoint = ''get_children'', data = Val 3, timestamp = 30,
           resolve = ResolveOf 2, reject = RejectOf 2, timeoutId = 2,
           dispatched = False, dispatchedAt = 0\<rparr>)]"
    by (simp add: oneClaimed_value)
  have dsp: "dispatched \<lparr>id_field = ''a'', endpoint = ''get_file_tree'', data = Val (1::nat),
           timestamp = 10, resolve = ResolveOf 0, reject = RejectOf 0, timeoutId = 0,
           dispatched = True, dispatchedAt = 100\<rparr>"
    by simp
  have rq: "requestId \<lparr>requestId = ''a'', request = (''get_file_tree'', Val (1::nat))\<rparr> = ''a''"
    by simp
  note t = stale_reclaim_in_place [OF ok a dsp g rq]
  from t have "snd (getPendingRequest 45101 oneClaimed) =
       oneClaimed\<lparr>pendingRequests :=
         map (\<lambda>(k, r). (k, if k = ''a'' then r\<lparr>dispatchedAt := 45101\<rparr>
                                    else if dispatched r \<and> 45101 - dispatchedAt r > 45000
                                    then r\<lparr>dispatched := False, dispatchedAt := 0\<rparr>
                                    else r)) (pendingRequests oneClaimed)\<rparr>"
    by blast
  then have s': "snd (getPendingRequest 45101 oneClaimed) =
      oneClaimed\<lparr>pendingRequests :=
        [(''a'', \<lparr>id_field = ''a'', endpoint = ''get_file_tree'', data = Val 1, timestamp = 10,
           resolve = ResolveOf 0, reject = RejectOf 0, timeoutId = 0,
           dispatched = True, dispatchedAt = 45101\<rparr>),
         (''b'', \<lparr>id_field = ''b'', endpoint = ''set_property'', data = Val 2, timestamp = 20,
           resolve = ResolveOf 1, reject = RejectOf 1, timeoutId = 1,
           dispatched = False, dispatchedAt = 0\<rparr>),
         (''c'', \<lparr>id_field = ''c'', endpoint = ''get_children'', data = Val 3, timestamp = 30,
           resolve = ResolveOf 2, reject = RejectOf 2, timeoutId = 2,
           dispatched = False, dispatchedAt = 0\<rparr>)]\<rparr>"
    unfolding v .
  from t have cnt: "getPendingCount (snd (getPendingRequest 45101 oneClaimed)) =
      getPendingCount oneClaimed"
    by blast
  from g s' have "getPendingRequest 45101 oneClaimed =
     (Some \<lparr>requestId = ''a'', request = (''get_file_tree'', Val 1)\<rparr>,
      oneClaimed\<lparr>pendingRequests :=
        [(''a'', \<lparr>id_field = ''a'', endpoint = ''get_file_tree'', data = Val 1, timestamp = 10,
           resolve = ResolveOf 0, reject = RejectOf 0, timeoutId = 0,
           dispatched = True, dispatchedAt = 45101\<rparr>),
         (''b'', \<lparr>id_field = ''b'', endpoint = ''set_property'', data = Val 2, timestamp = 20,
           resolve = ResolveOf 1, reject = RejectOf 1, timeoutId = 1,
           dispatched = False, dispatchedAt = 0\<rparr>),
         (''c'', \<lparr>id_field = ''c'', endpoint = ''get_children'', data = Val 3, timestamp = 30,
           resolve = ResolveOf 2, reject = RejectOf 2, timeoutId = 2,
           dispatched = False, dispatchedAt = 0\<rparr>)]\<rparr>)"
    by simp
  with ok cnt n show ?thesis by blast
qed

text \<open>The entry returned is not the only one that may change: the request \<open>''a''\<close>,
  claimed at 100, is claimed again at 50000, and the same call resets the entry of
  \<open>''b''\<close>, claimed at 200.\<close>

theorem stale_reclaim_in_place_counterexample:
  "fst (getPendingRequest 50000
          (run [SendRequest ''a'' ''get_file_tree'' (Val 1) 10,
                SendRequest ''b'' ''set_property'' (Val 2) 20,
                GetPendingRequest 100, GetPendingRequest 200]
             (newBridgeService :: nat state))) =
     Some \<lparr>requestId = ''a'', request = (''get_file_tree'', Val 1)\<rparr> \<and>
   map_of (pendingRequests
          (run [SendRequest ''a'' ''get_file_tree'' (Val 1) 10,
                SendRequest ''b'' ''set_property'' (Val 2) 20,
                GetPendingRequest 100, GetPendingRequest 200]
             (newBridgeService :: nat state))) ''b'' =
     Some \<lparr>id_field = ''b'', endpoint = ''set_property'', data = Val 2, timestamp = 20,
           resolve = ResolveOf 1, reject = RejectOf 1, timeoutId = 1,
           dispatched = True, dispatchedAt = 200\<rparr> \<and>
   map_of (pendingRequests (snd (getPendingRequest 50000
          (run [SendRequest ''a'' ''get_file_tree'' (Val 1) 10,
                SendRequest ''b'' ''set_property'' (Val 2) 20,
                GetPendingRequest 100, GetPendingRequest 200]
             (newBridgeService :: nat state))))) ''b'' =
     Some \<lparr>id_field = ''b'', endpoint = ''set_property'', data = Val 2, timestamp = 20,
           resolve = ResolveOf 1, reject = RejectOf 1, timeoutId = 1,
           dispatched = False, dispatchedAt = 0\<rparr>"
  by code_simp

subsection \<open>From sendRequest to the settled promise\<close>

text \<open>
  C9 (amended). On a bridge with an empty table, \<open>sendRequest\<close> with endpoint \<open>ep\<close> and
  data \<open>d\<close> returns a new promise; the next \<open>getPendingRequest\<close>, at any time, returns the
  id of the request with \<open>ep\<close> and \<open>d\<close> as they were given; and \<open>resolveRequest\<close> with that
  id and a response calls the \<open>resolve\<close> of that promise once, with that response, and
  leaves the table empty and the request's timer cancelled. In a state that keeps the
  discipline of promises and timers, the promise was pending before; afterwards, and
  whatever calls follow, that call is the one that decides it: the promise is fulfilled
  with the response when the response is not a thenable, and follows the response when
  it is one.
\<close>

theorem send_claim_resolve_round_trip:
  assumes "pendingRequests s = []"
  shows "let (p, s1) = sendRequest rid ep d t s;
             (c, s2) = getPendingRequest now s1;
             s3 = resolveRequest rid response s2
         in p = nextPromise s \<and>
            c = Some \<lparr>requestId = rid, request = (ep, d)\<rparr> \<and>
            settlements s3 = settlements s @ [(ResolveOf p, response)] \<and>
            pendingRequests s3 = [] \<and>
            map_of (timeouts s3) (nextTimeoutId s) = None \<and>
            (runtimeOk s \<longrightarrow>
               promiseState s p = Pending \<and>
               firstCall (run calls s3) p = Some (ResolveOf p, response) \<and>
               promiseState (run calls s3) p = adopt response \<and>
               (\<not> isThenable response \<longrightarrow>
                  promiseState (run calls s3) p = Fulfilled response))"
proof -
  let ?s1 = "snd (sendRequest rid ep d t s)"
  let ?s2 = "snd (getPendingRequest now ?s1)"
  let ?s3 = "resolveRequest rid response ?s2"
  let ?p = "nextPromise s"
  have basic: "fst (sendRequest rid ep d t s) = ?p"
    "fst (getPendingRequest now ?s1) = Some \<lparr>requestId = rid, request = (ep, d)\<rparr>"
    "settlements ?s3 = settlements s @ [(ResolveOf ?p, response)]"
    "pendingRequests ?s3 = []"
    "map_of (timeouts ?s3) (nextTimeoutId s) = None"
    using assms
    by (simp_all add: sendRequest_def setTimeout_def Let_def getPendingRequest_def older_def
          mark_def resolveRequest_def remove_and_settle delete_conv)
  have more: "promiseState s ?p = Pending \<and>
      firstCall (run calls ?s3) ?p = Some (ResolveOf ?p, response) \<and>
      promiseState (run calls ?s3) ?p = adopt response \<and>
      (\<not> isThenable response \<longrightarrow> promiseState (run calls ?s3) ?p = Fulfilled response)"
    if r: "runtimeOk s"
  proof -
    from assms have t0: "tableOk s" by (simp add: tableOk_def)
    have t1: "tableOk ?s1" by (rule tableOk_sendRequest [OF t0])
    have r1: "runtimeOk ?s1" by (rule runtimeOk_sendRequest [OF r])
    have t2: "tableOk ?s2" by (rule tableOk_getPendingRequest [OF t1])
    have r2: "runtimeOk ?s2" by (rule runtimeOk_getPendingRequest [OF t1 r1])
    have t3: "tableOk ?s3" by (rule tableOk_resolveRequest [OF t2])
    have r3: "runtimeOk ?s3" by (rule runtimeOk_resolveRequest [OF r2])
    from r have "\<forall>q \<in> set (settledPromises s). q < ?p" unfolding runtimeOk_def by blast
    then have "?p \<notin> set (settledPromises s)" by blast
    then have "\<forall>x \<in> set (settlements s). \<not> (case x of (cb, v) \<Rightarrow> promiseOf cb = ?p)"
      by (force simp: settledPromises_def)
    then have "firstCall s ?p = None"
      unfolding firstCall_def find_None_iff by blast
    then have 1: "promiseState s ?p = Pending" by (simp add: promiseState_def)
    have "(ResolveOf ?p, response) \<in> set (settlements ?s3)" by (simp add: basic(3))
    from settled_forever [OF t3 r3 this, of calls]
    have "filter (\<lambda>(cb, v). promiseOf cb = ?p) (settlements (run calls ?s3)) =
        [(ResolveOf ?p, response)]"
      by simp
    then have 2: "firstCall (run calls ?s3) ?p = Some (ResolveOf ?p, response)"
      by (rule firstCall_of_filter)
    then have 3: "promiseState (run calls ?s3) ?p = adopt response"
      by (simp add: promiseState_def)
    from 1 2 3 show ?thesis by (simp add: adopt_not_thenable)
  qed
  from basic more show ?thesis
    by (simp add: case_prod_unfold Let_def adopt_not_thenable)
qed

theorem send_claim_resolve_round_trip_witness:
  "pendingRequests (newBridgeService :: nat state) = [] \<and>
   runtimeOk (newBridgeService :: nat state) \<and>
   fst (getPendingRequest 100
          (snd (sendRequest ''a'' ''get_file_tree'' (Val 1) 10 (newBridgeService :: nat state)))) =
     Some \<lparr>requestId = ''a'', request = (''get_file_tree'', Val 1)\<rparr> \<and>
   settlements (resolveRequest ''a'' (Val 7)
      (snd (getPendingRequest 100
          (snd (sendRequest ''a'' ''get_file_tree'' (Val 1) 10 (newBridgeService :: nat state)))))) =
     [(ResolveOf 0, Val 7)] \<and>
   promiseState (run lateCalls (resolveRequest ''a'' (Val 7)
      (snd (getPendingRequest 100
          (snd (sendRequest ''a'' ''get_file_tree'' (Val 1) 10 (newBridgeService :: nat state))))))) 0 =
     Fulfilled (Val 7)"
proof -
  have e: "pendingRequests (newBridgeService :: nat state) = []"
    by (simp add: newBridgeService_def)
  have r: "runtimeOk (newBridgeService :: nat state)" by (rule runtimeOk_new)
  have l: "settlements (newBridgeService :: nat state) = []"
    "nextPromise (newBridgeService :: nat state) = 0"
    by (simp_all add: newBridgeService_def)
  have nt: "\<not> isThenable (Val (7::nat))" by simp
  note t = send_claim_resolve_round_trip [OF e, of "''a''" "''get_file_tree''" "Val 1" 10 100
      "Val 7" lateCalls, unfolded Let_def case_prod_unfold]
  from t have "fst (sendRequest ''a'' ''get_file_tree'' (Val 1) 10 (newBridgeService :: nat state)) =
      nextPromise (newBridgeService :: nat state)"
    by blast
  with l have p: "fst (sendRequest ''a'' ''get_file_tree'' (Val 1) 10 (newBridgeService :: nat state)) = 0"
    by simp
  from t have "settlements (resolveRequest ''a'' (Val 7)
      (snd (getPendingRequest 100
          (snd (sendRequest ''a'' ''get_file_tree'' (Val 1) 10 (newBridgeService :: nat state)))))) =
     settlements (newBridgeService :: nat state) @
     [(ResolveOf (fst (sendRequest ''a'' ''get_file_tree'' (Val 1) 10
                         (newBridgeService :: nat state))), Val 7)]"
    by blast
  with l p have 1: "settlements (resolveRequest ''a'' (Val 7)
      (snd (getPendingRequest 100
          (snd (sendRequest ''a'' ''get_file_tree'' (Val 1) 10 (newBridgeService :: nat state)))))) =
     [(ResolveOf 0, Val 7)]"
    by simp
  from t have 2: "fst (getPendingRequest 100
          (snd (sendRequest ''a'' ''get_file_tree'' (Val 1) 10 (newBridgeService :: nat state)))) =
     Some \<lparr>requestId = ''a'', request = (''get_file_tree'', Val 1)\<rparr>"
    by blast
  from t r nt have "promiseState (run lateCalls (resolveRequest ''a'' (Val 7)
      (snd (getPendingRequest 100
          (snd (sendRequest ''a'' ''get_file_tree'' (Val 1) 10 (newBridgeService :: nat state)))))))
        (fst (sendRequest ''a'' ''get_file_tree'' (Val 1) 10 (newBridgeService :: nat state))) =
     Fulfilled (Val 7)"
    by blast
  then have 3: "promiseState (run lateCalls (resolveRequest ''a'' (Val 7)
      (snd (getPendingRequest 100
          (snd (sendRequest ''a'' ''get_file_tree'' (Val 1) 10 (newBridgeService :: nat state))))))) 0 =
     Fulfilled (Val 7)"
    unfolding p .
  from e r 1 2 3 show ?thesis by blast
qed

text \<open>A response that is a thenable is not what the promise is settled with: resolved
  with a thenable whose \<open>then\<close> rejects with the error \<open>''x''\<close>, the promise of the request
  is rejected with that error, not fulfilled with the response.\<close>

theorem send_claim_resolve_round_trip_counterexample:
  "settlements (resolveRequest ''a'' (ThenRejects (Error ''x''))
      (snd (getPendingRequest 100
          (snd (sendRequest ''a'' ''get_file_tree'' (Val 1) 10 (newBridgeService :: nat state)))))) =
     [(ResolveOf 0, ThenRejects (Error ''x''))] \<and>
   promiseState (resolveRequest ''a'' (ThenRejects (Error ''x''))
      (snd (getPendingRequest 100
          (snd (sendRequest ''a'' ''get_file_tree'' (Val 1) 10 (newBridgeService :: nat state)))))) 0 =
     Rejected (Error ''x'') \<and>
   promiseState (resolveRequest ''a'' (ThenRejects (Error ''x''))
      (snd (getPendingRequest 100
          (snd (sendRequest ''a'' ''get_file_tree'' (Val 1) 10 (newBridgeService :: nat state)))))) 0 \<noteq>
     Fulfilled (ThenRejects (Error ''x''))"
  by code_simp

end
